theory Spec2Isabelle
  imports Complex_Main
begin

section \<open>The elevation pipeline of gpx-visual (utils.js, processGPX)\<close>

text \<open>
  The pipeline is one JavaScript function, \<^verbatim>\<open>processGPX\<close>. Its stages are
  embedded here one definition per stage, in the order of the source, and composed
  again at the end.

  What the model assumes:
  \<^item> Numbers are reals. The resampler, the smoother, the slopes and the statistics
    compute in exact arithmetic. The accumulator of step 3, whose threshold tests and
    running sums depend on the rounding, rounds each subtraction and addition to the
    nearest double. NaN and the infinities are outside the model, and every point
    carries a numeric elevation.
  \<^item> \<^verbatim>\<open>undefined\<close> read from an array is \<open>None\<close>; reading a property of
    \<^verbatim>\<open>undefined\<close> is the error \<open>TypeError\<close>.
  \<^item> The parser \<^verbatim>\<open>gpxParser\<close> and the imported \<^verbatim>\<open>simplify\<close> are libraries:
    the pipeline starts from the parsed object and takes the simplifier as a parameter.
  \<^item> A record field whose name is taken in HOL carries a suffix: \<open>dist_s\<close> for
    \<^verbatim>\<open>dist\<close>, \<open>total_d\<close> for \<^verbatim>\<open>total\<close>, \<open>distance_text\<close> for the \<^verbatim>\<open>distance\<close> of
    the stats. The local \<^verbatim>\<open>points\<close> is written \<open>pts\<close>.
\<close>

subsection \<open>Data\<close>

datatype error =
    Error string      \<comment> \<open>\<^verbatim>\<open>throw new Error(msg)\<close>\<close>
  | TypeError         \<comment> \<open>a property read of \<^verbatim>\<open>undefined\<close>\<close>
  | DivisionByZero    \<comment> \<open>a quotient with divisor 0: no real value stands for its result\<close>

text \<open>A parsed track point; only \<^verbatim>\<open>ele\<close> is read by the pipeline.\<close>

record trkpt =
  ele :: real

text \<open>\<^verbatim>\<open>track.distance\<close>: the total and the cumulative distance of every point.\<close>

record distance =
  total_d :: real
  cumul :: "real list"

record track =
  points :: "trkpt list"
  distance :: distance

text \<open>The parser's result; \<open>tracks = None\<close> is a missing \<^verbatim>\<open>gpx.tracks\<close>.\<close>

record gpx =
  tracks :: "track list option"

text \<open>A resampled or smoothed sample \<^verbatim>\<open>{ dist, ele }\<close>.\<close>

record sample = trkpt +
  dist_s :: real

subsection \<open>Constants\<close>

definition SAMPLE_DISTANCE :: real where
  "SAMPLE_DISTANCE = 25"

definition SMOOTH_DISTANCE :: real where
  "SMOOTH_DISTANCE = 100"

definition THRESHOLD :: real where
  "THRESHOLD = 4"

subsection \<open>Step 1: resampling\<close>

text \<open>\<^verbatim>\<open>cumDist[i]\<close>: \<open>None\<close> beyond the end of the array.\<close>

definition cumDist_at :: "real list \<Rightarrow> nat \<Rightarrow> real option" where
  "cumDist_at cumDist i = (if i < length cumDist then Some (cumDist ! i) else None)"

text \<open>\<^verbatim>\<open>a < b\<close> on numbers: false as soon as one side is \<^verbatim>\<open>undefined\<close>.\<close>

fun js_less :: "real option \<Rightarrow> real option \<Rightarrow> bool" where
  "js_less (Some a) (Some b) = (a < b)"
| "js_less _ _ = False"

text \<open>\<^verbatim>\<open>points[i].ele\<close>, with \<open>i\<close> a JavaScript index that may be \<open>-1\<close>.\<close>

definition ele_at :: "trkpt list \<Rightarrow> int \<Rightarrow> error + real" where
  "ele_at pts i =
     (if 0 \<le> i \<and> i < int (length pts) then Inr (ele (pts ! nat i)) else Inl TypeError)"

text \<open>A quotient that reports a zero divisor.\<close>

definition num_div :: "real \<Rightarrow> real \<Rightarrow> error + real" where
  "num_div a b = (if b = 0 then Inl DivisionByZero else Inr (a / b))"

text \<open>
  \<^verbatim>\<open>while (idx < points.length - 1 && cumDist[idx + 1] < d) idx++;\<close>
\<close>

function advance :: "trkpt list \<Rightarrow> real list \<Rightarrow> real \<Rightarrow> nat \<Rightarrow> nat" where
  "advance pts cumDist d idx =
     (if int idx < int (length pts) - 1 \<and> js_less (cumDist_at cumDist (idx + 1)) (Some d)
      then advance pts cumDist d (idx + 1)
      else idx)"
  by pat_completeness auto
termination
  by (relation "measure (\<lambda>(pts, cumDist, d, idx). length pts - idx)") auto

declare advance.simps [simp del]

text \<open>
  The body of the \<^verbatim>\<open>for\<close> loop after the index has advanced: the elevation
  pushed for the target distance \<open>d\<close>. The test \<^verbatim>\<open>d2 > d1\<close> holds only when both
  distances are defined, so \<open>the\<close> is applied to \<open>Some\<close> values only.
\<close>

definition sample_ele :: "trkpt list \<Rightarrow> real list \<Rightarrow> real \<Rightarrow> nat \<Rightarrow> error + real" where
  "sample_ele pts cumDist d idx =
     (if int idx \<ge> int (length pts) - 1
      then ele_at pts (int (length pts) - 1)
      else
        let d1 = cumDist_at cumDist idx; d2 = cumDist_at cumDist (idx + 1) in
        (case ele_at pts (int idx) of Inl e \<Rightarrow> Inl e | Inr e1 \<Rightarrow>
        (case ele_at pts (int idx + 1) of Inl e \<Rightarrow> Inl e | Inr e2 \<Rightarrow>
        (case (if js_less d1 d2 then num_div (d - the d1) (the d2 - the d1) else Inr 0) of
           Inl e \<Rightarrow> Inl e
         | Inr t \<Rightarrow> Inr (e1 + t * (e2 - e1))))))"

text \<open>
  \<^verbatim>\<open>for (let d = 0; d <= totalDist; d += SAMPLE_DISTANCE) { ... samples.push(...) }\<close>
  with the state \<open>(d, idx, samples)\<close>.
\<close>

function resample_loop ::
  "trkpt list \<Rightarrow> real list \<Rightarrow> real \<Rightarrow> real \<Rightarrow> nat \<Rightarrow> sample list \<Rightarrow> error + sample list" where
  "resample_loop pts cumDist totalDist d idx samples =
     (if d \<le> totalDist then
        (case sample_ele pts cumDist d (advance pts cumDist d idx) of
           Inl e \<Rightarrow> Inl e
         | Inr v \<Rightarrow>
             resample_loop pts cumDist totalDist (d + SAMPLE_DISTANCE)
               (advance pts cumDist d idx) (samples @ [\<lparr>ele = v, dist_s = d\<rparr>]))
      else Inr samples)"
  by pat_completeness auto
termination
proof (relation "measure (\<lambda>(pts, cumDist, totalDist, d, idx, samples).
          nat (\<lfloor>(totalDist - d) / 25\<rfloor> + 1))")
  show "wf (measure (\<lambda>(pts, cumDist, totalDist, d, idx, samples).
          nat (\<lfloor>(totalDist - d) / 25\<rfloor> + 1)))"
    by simp
next
  fix pts :: "trkpt list" and cumDist :: "real list" and totalDist d :: real
    and idx :: nat and samples :: "sample list" and v :: real
  assume le: "d \<le> totalDist"
  have "(totalDist - (d + 25)) / 25 = (totalDist - d) / 25 - 1"
    by (simp add: field_simps)
  then have "\<lfloor>(totalDist - (d + 25)) / 25\<rfloor> = \<lfloor>(totalDist - d) / 25 - 1\<rfloor>"
    by (rule arg_cong)
  then have "\<lfloor>(totalDist - (d + 25)) / 25\<rfloor> = \<lfloor>(totalDist - d) / 25\<rfloor> - 1"
    by (simp only: floor_diff_one)
  moreover have "0 \<le> \<lfloor>(totalDist - d) / 25\<rfloor>"
    using le by simp
  ultimately show "((pts, cumDist, totalDist, d + SAMPLE_DISTANCE,
            advance pts cumDist d idx, samples @ [\<lparr>ele = v, dist_s = d\<rparr>]),
           (pts, cumDist, totalDist, d, idx, samples))
          \<in> measure (\<lambda>(pts, cumDist, totalDist, d, idx, samples).
                nat (\<lfloor>(totalDist - d) / 25\<rfloor> + 1))"
    by (simp add: SAMPLE_DISTANCE_def)
qed

declare resample_loop.simps [simp del]

definition resample :: "trkpt list \<Rightarrow> real list \<Rightarrow> real \<Rightarrow> error + sample list" where
  "resample pts cumDist totalDist = resample_loop pts cumDist totalDist 0 0 []"

subsection \<open>Step 2: moving average\<close>

definition windowSize :: int where
  "windowSize = \<lfloor>SMOOTH_DISTANCE / SAMPLE_DISTANCE\<rfloor>"

definition half :: int where
  "half = \<lfloor>real_of_int windowSize / 2\<rfloor>"

text \<open>
  \<^verbatim>\<open>for (let j = Math.max(0, i - half); j <= Math.min(samples.length - 1, i + half); j++)
    { sum += samples[j].ele; count++; }\<close>
  with the state \<open>(j, sum, count)\<close>. The bounds keep \<open>j\<close> between \<open>0\<close> and
  \<open>length samples - 1\<close>, so \<^verbatim>\<open>samples[j]\<close> is always an element.
\<close>

function window_loop :: "sample list \<Rightarrow> int \<Rightarrow> int \<Rightarrow> real \<times> nat \<Rightarrow> real \<times> nat" where
  "window_loop samples hi j (acc_sum, count) =
     (if j \<le> hi
      then window_loop samples hi (j + 1) (acc_sum + ele (samples ! nat j), count + 1)
      else (acc_sum, count))"
  by pat_completeness auto
termination
  by (relation "measure (\<lambda>(samples, hi, j, st). nat (hi + 1 - j))") auto

declare window_loop.simps [simp del]

text \<open>\<^verbatim>\<open>samples.map((sample, i) => ... { dist: sample.dist, ele: sum / count })\<close>\<close>

definition smooth_at :: "sample list \<Rightarrow> nat \<times> sample \<Rightarrow> sample" where
  "smooth_at samples = (\<lambda>(i, sample).
     case window_loop samples (min (int (length samples) - 1) (int i + half))
            (max 0 (int i - half)) (0, 0) of
       (acc_sum, count) \<Rightarrow> \<lparr>ele = acc_sum / real count, dist_s = dist_s sample\<rparr>)"

definition smooth :: "sample list \<Rightarrow> sample list" where
  "smooth samples = map (smooth_at samples) (enumerate 0 samples)"

subsection \<open>Rounding to double precision\<close>

text \<open>
  A JavaScript \<^verbatim>\<open>+\<close> or \<^verbatim>\<open>-\<close> returns the double nearest to the exact result, a
  tie going to the even significand. The exponent is taken without bound: overflow
  to an infinity is outside the model, and a sum or difference of two doubles that
  falls below \<open>2 powi (- 1022)\<close> is exact in the program and in the model alike.
\<close>

text \<open>The binary exponent: \<open>2 powi expo v \<le> \<bar>v\<bar> < 2 powi (expo v + 1)\<close> for \<open>v \<noteq> 0\<close>.\<close>

function expo :: "real \<Rightarrow> int" where
  "expo v =
     (if v = 0 then 0
      else if 2 \<le> \<bar>v\<bar> then expo (v / 2) + 1
      else if \<bar>v\<bar> < 1 then expo (v * 2) - 1
      else 0)"
  by pat_completeness auto
termination
proof (relation "measure (\<lambda>v. if v = 0 then 0 else nat \<bar>\<lfloor>log 2 \<bar>v\<bar>\<rfloor>\<bar>)")
  show "wf (measure (\<lambda>v. if v = 0 then 0 else nat \<bar>\<lfloor>log 2 \<bar>v\<bar>\<rfloor>\<bar>))"
    by simp
next
  fix v :: real
  assume nz: "v \<noteq> 0" and big: "2 \<le> \<bar>v\<bar>"
  have "log 2 \<bar>v / 2\<bar> = log 2 \<bar>v\<bar> - 1"
    using nz by (simp add: log_divide)
  then have f: "\<lfloor>log 2 \<bar>v / 2\<bar>\<rfloor> = \<lfloor>log 2 \<bar>v\<bar>\<rfloor> - 1"
    by simp
  have "1 \<le> log 2 \<bar>v\<bar>"
    using big by (simp add: le_log_iff)
  then have "1 \<le> \<lfloor>log 2 \<bar>v\<bar>\<rfloor>"
    by linarith
  with f nz show "(v / 2, v) \<in> measure (\<lambda>v. if v = 0 then 0 else nat \<bar>\<lfloor>log 2 \<bar>v\<bar>\<rfloor>\<bar>)"
    by simp
next
  fix v :: real
  assume nz: "v \<noteq> 0" and small: "\<bar>v\<bar> < 1"
  have "log 2 \<bar>v * 2\<bar> = log 2 \<bar>v\<bar> + 1"
    using nz by (simp add: log_mult abs_mult)
  then have f: "\<lfloor>log 2 \<bar>v * 2\<bar>\<rfloor> = \<lfloor>log 2 \<bar>v\<bar>\<rfloor> + 1"
    by simp
  have "log 2 \<bar>v\<bar> < 0"
    using small nz by simp
  then have "\<lfloor>log 2 \<bar>v\<bar>\<rfloor> \<le> - 1"
    by linarith
  with f nz show "(v * 2, v) \<in> measure (\<lambda>v. if v = 0 then 0 else nat \<bar>\<lfloor>log 2 \<bar>v\<bar>\<rfloor>\<bar>)"
    by simp
qed

declare expo.simps [simp del]

text \<open>The spacing of the doubles around \<open>v\<close>: 53 significant bits.\<close>

definition ulp :: "real \<Rightarrow> real" where
  "ulp v = 2 powi (expo v - 52)"

text \<open>The integer nearest to \<open>q\<close>, the even one on a tie.\<close>

definition rne :: "real \<Rightarrow> int" where
  "rne q =
     (let n = \<lfloor>q\<rfloor>; r = q - of_int n
      in if r < 1 / 2 then n else if 1 / 2 < r then n + 1 else if even n then n else n + 1)"

text \<open>The double nearest to \<open>v\<close>.\<close>

definition fl :: "real \<Rightarrow> real" where
  "fl v = (if v = 0 then 0 else of_int (rne (v / ulp v)) * ulp v)"

subsection \<open>Step 3: gain and loss with threshold\<close>

text \<open>The three variables of the loop: \<^verbatim>\<open>elevationGain\<close>, \<^verbatim>\<open>elevationLoss\<close>, \<^verbatim>\<open>anchor\<close>.\<close>

record gain_loss =
  gain :: real
  loss :: real
  anchor :: real

text \<open>
  One turn of the loop, at the sample \<^verbatim>\<open>smoothed[i]\<close>. The subtraction of line 83 and
  the two \<^verbatim>\<open>+=\<close> round to double precision; the comparisons and \<^verbatim>\<open>Math.abs\<close> are exact.
\<close>

definition acc_step :: "gain_loss \<Rightarrow> sample \<Rightarrow> gain_loss" where
  "acc_step st s =
     (let diff = fl (ele s - anchor st) in
      if diff \<ge> THRESHOLD then st\<lparr>gain := fl (gain st + diff), anchor := ele s\<rparr>
      else if diff \<le> - THRESHOLD then st\<lparr>loss := fl (loss st + \<bar>diff\<bar>), anchor := ele s\<rparr>
      else st)"

text \<open>\<^verbatim>\<open>for (let i = 1; i < smoothed.length; i++)\<close>: the samples after the first, in order.\<close>

fun acc_loop :: "sample list \<Rightarrow> gain_loss \<Rightarrow> gain_loss" where
  "acc_loop [] st = st"
| "acc_loop (s # rest) st = acc_loop rest (acc_step st s)"

text \<open>\<^verbatim>\<open>smoothed[0].ele\<close> fails on an empty sequence.\<close>

definition accumulate :: "sample list \<Rightarrow> error + gain_loss" where
  "accumulate smoothed =
     (case smoothed of
        [] \<Rightarrow> Inl TypeError
      | s0 # rest \<Rightarrow> Inr (acc_loop rest \<lparr>gain = 0, loss = 0, anchor = ele s0\<rparr>))"

text \<open>
  A run of the loop in which nothing is rounded: at every turn the difference to the
  anchor is a double, and so is the sum that the turn stores.
\<close>

definition exact_turn :: "gain_loss \<Rightarrow> sample \<Rightarrow> bool" where
  "exact_turn st s =
     (let diff = ele s - anchor st in
      fl diff = diff \<and>
      (if diff \<ge> THRESHOLD then fl (gain st + diff) = gain st + diff
       else if diff \<le> - THRESHOLD then fl (loss st + \<bar>diff\<bar>) = loss st + \<bar>diff\<bar>
       else True))"

fun exact_loop :: "sample list \<Rightarrow> gain_loss \<Rightarrow> bool" where
  "exact_loop [] st = True"
| "exact_loop (s # rest) st = (exact_turn st s \<and> exact_loop rest (acc_step st s))"

definition exact_run :: "sample list \<Rightarrow> bool" where
  "exact_run smoothed =
     (case smoothed of
        [] \<Rightarrow> True
      | s0 # rest \<Rightarrow> exact_loop rest \<lparr>gain = 0, loss = 0, anchor = ele s0\<rparr>)"

subsection \<open>Number formatting\<close>

definition digit_char :: "nat \<Rightarrow> char" where
  "digit_char n = ''0123456789'' ! n"

function digits :: "nat \<Rightarrow> string" where
  "digits n = (if n < 10 then [digit_char n] else digits (n div 10) @ [digit_char (n mod 10)])"
  by pat_completeness auto
termination
  by (relation "measure (\<lambda>n. n)") auto

declare digits.simps [simp del]

text \<open>
  \<^verbatim>\<open>Number.prototype.toFixed(f)\<close> below \<open>10^21\<close>: the sign, then the integer
  \<open>n\<close> nearest to \<open>\<bar>v\<bar> * 10^f\<close> (the larger one on a tie), written with \<open>f\<close> digits after
  the point.
\<close>

definition toFixed :: "nat \<Rightarrow> real \<Rightarrow> string" where
  "toFixed f v =
     (let m = digits (nat \<lfloor>\<bar>v\<bar> * 10 ^ f + 1 / 2\<rfloor>);
          z = replicate (f + 1 - length m) (CHR ''0'') @ m;
          k = length z
      in (if v < 0 then ''-'' else []) @
         (if f = 0 then m else take (k - f) z @ ''.'' @ drop (k - f) z))"

text \<open>\<^verbatim>\<open>Math.round(v).toString()\<close>: the nearest integer, a tie going up.\<close>

definition Math_round :: "real \<Rightarrow> int" where
  "Math_round v = \<lfloor>v + 1 / 2\<rfloor>"

definition toString :: "int \<Rightarrow> string" where
  "toString i = (if i < 0 then ''-'' @ digits (nat (- i)) else digits (nat i))"

text \<open>
  \<^verbatim>\<open>Math.max(...vs)\<close> and \<^verbatim>\<open>Math.min(...vs)\<close>; \<open>None\<close> is the infinity that
  JavaScript returns for no argument.
\<close>

fun Math_max :: "real list \<Rightarrow> real option" where
  "Math_max [] = None"
| "Math_max (v # vs) = Some (fold max vs v)"

fun Math_min :: "real list \<Rightarrow> real option" where
  "Math_min [] = None"
| "Math_min (v # vs) = Some (fold min vs v)"

subsection \<open>Chart data: simplified points and slopes\<close>

text \<open>A plotted point \<^verbatim>\<open>{ x, y }\<close>.\<close>

record xy =
  x :: real
  y :: real

text \<open>
  The value of the \<^verbatim>\<open>slope\<close> property: the number it is initialised with, or the
  string that \<^verbatim>\<open>toFixed\<close> returns.
\<close>

datatype jsval = Num real | Str string

record chartpoint = xy +
  slope :: jsval

text \<open>\<^verbatim>\<open>smoothed.map(s => ({ x: s.dist, y: s.ele }))\<close>\<close>

definition smoothedPoints :: "sample list \<Rightarrow> xy list" where
  "smoothedPoints smoothed = map (\<lambda>s. \<lparr>x = dist_s s, y = ele s\<rparr>) smoothed"

text \<open>\<^verbatim>\<open>simplifiedPoints.map(p => ({ x: p.x, y: p.y, slope: 0 }))\<close>\<close>

definition initChart :: "xy list \<Rightarrow> chartpoint list" where
  "initChart simplifiedPoints = map (\<lambda>p. \<lparr>x = x p, y = y p, slope = Num 0\<rparr>) simplifiedPoints"

text \<open>
  \<^verbatim>\<open>for (let i = 0; i < chartData.length - 1; i++) { ... chartData[i].slope = slopeDeg; }\<close>
  with the state \<open>(chartData, i)\<close>; the assignment is a list update.
\<close>

function slope_loop :: "chartpoint list \<Rightarrow> nat \<Rightarrow> chartpoint list" where
  "slope_loop chartData i =
     (if int i < int (length chartData) - 1 then
        (let dx = x (chartData ! (i + 1)) - x (chartData ! i);
             dy = y (chartData ! (i + 1)) - y (chartData ! i)
         in if dx > 0 then
              (let grade = (dy / dx) * 100;
                   slopeDeg = toFixed 1 (arctan (grade / 100) * 180 / pi)
               in slope_loop (chartData[i := (chartData ! i)\<lparr>slope := Str slopeDeg\<rparr>]) (i + 1))
            else slope_loop chartData (i + 1))
      else chartData)"
  by pat_completeness auto
termination
  by (relation "measure (\<lambda>(chartData, i). length chartData - i)") auto

declare slope_loop.simps [simp del]

definition annotate :: "xy list \<Rightarrow> chartpoint list" where
  "annotate simplifiedPoints = slope_loop (initChart simplifiedPoints) 0"

subsection \<open>Stats and the pipeline\<close>

record stats =
  distance_text :: string       \<comment> \<open>the property \<^verbatim>\<open>distance\<close>\<close>
  totalDistance :: real
  elevationGain :: string
  elevationLoss :: string
  maxElevation :: string
  minElevation :: string

record result =
  stats :: stats
  chartData :: "chartpoint list"

definition mkStats :: "real \<Rightarrow> gain_loss \<Rightarrow> sample list \<Rightarrow> stats" where
  "mkStats totalDist acc smoothed =
     \<lparr>distance_text = toFixed 2 (totalDist / 1000),
      totalDistance = totalDist,
      elevationGain = toString (Math_round (gain acc)),
      elevationLoss = toString (Math_round (loss acc)),
      maxElevation = (case Math_max (map ele smoothed) of
                        None \<Rightarrow> ''-Infinity'' | Some m \<Rightarrow> toFixed 0 m),
      minElevation = (case Math_min (map ele smoothed) of
                        None \<Rightarrow> ''Infinity'' | Some m \<Rightarrow> toFixed 0 m)\<rparr>"

text \<open>
  \<^verbatim>\<open>processGPX\<close> after the parser has run: the argument is the parsed object. The
  imported \<^verbatim>\<open>simplify\<close> is a parameter, called as in the source with the tolerance
  \<open>3\<close> and \<^verbatim>\<open>highestQuality = true\<close>.
\<close>

definition processGPX :: "(xy list \<Rightarrow> real \<Rightarrow> bool \<Rightarrow> xy list) \<Rightarrow> gpx \<Rightarrow> error + result" where
  "processGPX simplify g =
     (case tracks g of
        None \<Rightarrow> Inl (Error ''No tracks found in GPX file'')
      | Some [] \<Rightarrow> Inl (Error ''No tracks found in GPX file'')
      | Some (trk # _) \<Rightarrow>
          (case resample (points trk) (cumul (distance trk)) (total_d (distance trk)) of
             Inl e \<Rightarrow> Inl e
           | Inr samples \<Rightarrow>
               (case accumulate (smooth samples) of
                  Inl e \<Rightarrow> Inl e
                | Inr acc \<Rightarrow>
                    Inr \<lparr>stats = mkStats (total_d (distance trk)) acc (smooth samples),
                         chartData = annotate (simplify (smoothedPoints (smooth samples)) 3 True)\<rparr>)))"

subsection \<open>The curve simplifier\<close>

text \<open>
  Modelled from the spec: \<^verbatim>\<open>simplify\<close> is imported from the package simplify-js and
  its code is not among the sources. The spec (section 4.4) asks for a
  Douglas-Peucker-style reduction with a tolerance that keeps the first and the last
  point and the points that lie farther than the tolerance from the chord, in the
  highest-quality mode (no decimation pass before it), behind the signature
  \<open>(points, tolerance) -> points\<close>. The definitions below are that algorithm.
\<close>

text \<open>Modelled from the spec: the squared distance from \<open>p\<close> to the segment \<open>p1 p2\<close>.\<close>

definition sqSegDist :: "xy \<Rightarrow> xy \<Rightarrow> xy \<Rightarrow> real" where
  "sqSegDist p p1 p2 =
     (let dx = x p2 - x p1; dy = y p2 - y p1 in
      if dx \<noteq> 0 \<or> dy \<noteq> 0 then
        (let t = ((x p - x p1) * dx + (y p - y p1) * dy) / (dx * dx + dy * dy) in
         if t > 1 then (x p - x p2)\<^sup>2 + (y p - y p2)\<^sup>2
         else if t > 0 then (x p - (x p1 + dx * t))\<^sup>2 + (y p - (y p1 + dy * t))\<^sup>2
         else (x p - x p1)\<^sup>2 + (y p - y p1)\<^sup>2)
      else (x p - x p1)\<^sup>2 + (y p - y p1)\<^sup>2)"

text \<open>
  Modelled from the spec: one step of the search for the point strictly between \<open>lo\<close>
  and \<open>hi\<close> that lies farthest from the chord, beyond the tolerance. The state is the
  index found so far, \<open>None\<close> when there is none, and its squared distance.
\<close>

definition farther :: "xy list \<Rightarrow> nat \<Rightarrow> nat \<Rightarrow> nat \<Rightarrow> nat option \<times> real \<Rightarrow> nat option \<times> real" where
  "farther pts lo hi i = (\<lambda>(index, maxSqDist).
     if sqSegDist (pts ! i) (pts ! lo) (pts ! hi) > maxSqDist
     then (Some i, sqSegDist (pts ! i) (pts ! lo) (pts ! hi))
     else (index, maxSqDist))"

text \<open>Modelled from the spec: the search over the indices \<open>lo + 1, \<dots>, hi - 1\<close>.\<close>

definition farthest :: "xy list \<Rightarrow> real \<Rightarrow> nat \<Rightarrow> nat \<Rightarrow> nat option \<times> real" where
  "farthest pts sqTolerance lo hi = fold (farther pts lo hi) [lo + 1..<hi] (None, sqTolerance)"

lemma fold_farther_index:
  "fold (farther pts lo hi) [a..<b] (i0, m0) = (Some index, m) \<Longrightarrow>
     i0 = Some index \<or> (a \<le> index \<and> index < b)"
proof (induction b arbitrary: index m)
  case 0
  then show ?case by simp
next
  case (Suc b)
  show ?case
  proof (cases "a \<le> b")
    case False
    with Suc.prems show ?thesis by simp
  next
    case True
    obtain i1 m1 where mid: "fold (farther pts lo hi) [a..<b] (i0, m0) = (i1, m1)"
      by (cases "fold (farther pts lo hi) [a..<b] (i0, m0)")
    with True Suc.prems have step: "farther pts lo hi b (i1, m1) = (Some index, m)"
      by simp
    show ?thesis
    proof (cases "index = b")
      case True
      with \<open>a \<le> b\<close> show ?thesis by simp
    next
      case False
      with step have "i1 = Some index"
        by (auto simp: farther_def split: if_splits)
      with mid Suc.IH have "i0 = Some index \<or> (a \<le> index \<and> index < b)"
        by blast
      then show ?thesis by auto
    qed
  qed
qed

lemma farthest_between:
  "farthest pts sqTolerance lo hi = (Some index, m) \<Longrightarrow> lo < index \<and> index < hi"
  using fold_farther_index [of pts lo hi "lo + 1" hi None sqTolerance index m]
  by (simp add: farthest_def)

text \<open>
  Modelled from the spec: the recursive step. The farthest point is kept and the two
  halves around it are simplified in turn; a span with no point beyond the tolerance
  contributes nothing.
\<close>

function dp_step :: "xy list \<Rightarrow> real \<Rightarrow> nat \<Rightarrow> nat \<Rightarrow> xy list" where
  "dp_step pts sqTolerance lo hi =
     (case farthest pts sqTolerance lo hi of
        (None, _) \<Rightarrow> []
      | (Some index, _) \<Rightarrow>
          (if index - lo > 1 then dp_step pts sqTolerance lo index else []) @
          [pts ! index] @
          (if hi - index > 1 then dp_step pts sqTolerance index hi else []))"
  by pat_completeness auto
termination
  by (relation "measure (\<lambda>(pts, sqTolerance, lo, hi). hi - lo)")
     (auto dest: farthest_between [OF sym])

declare dp_step.simps [simp del]

text \<open>Modelled from the spec: the simplifier; at most two points are returned as they are.\<close>

definition simplify_spec :: "xy list \<Rightarrow> real \<Rightarrow> xy list" where
  "simplify_spec pts tolerance =
     (if length pts \<le> 2 then pts
      else [pts ! 0] @ dp_step pts (tolerance * tolerance) 0 (length pts - 1) @
           [pts ! (length pts - 1)])"

subsection \<open>Example inputs\<close>

text \<open>
  The modelled simplifier behind the three-argument call of the source, and the track of
  the spec's end-to-end scenario A: distances 0, 50, 100 with elevations 100, 110, 100.
\<close>

abbreviation simplify_hq :: "xy list \<Rightarrow> real \<Rightarrow> bool \<Rightarrow> xy list" where
  "simplify_hq \<equiv> \<lambda>pts tolerance highestQuality. simplify_spec pts tolerance"

abbreviation scenario_A :: gpx where
  "scenario_A \<equiv> \<lparr>tracks = Some [\<lparr>points = [\<lparr>ele = 100\<rparr>, \<lparr>ele = 110\<rparr>, \<lparr>ele = 100\<rparr>],
       distance = \<lparr>total_d = 100, cumul = [0, 50, 100]\<rparr>\<rparr>]\<rparr>"

section \<open>Properties\<close>

subsection \<open>The resampler\<close>

lemma ele_at_last: "pts \<noteq> [] \<Longrightarrow> ele_at pts (int (length pts) - 1) = Inr (ele (last pts))"
  by (simp add: ele_at_def last_conv_nth nat_diff_distrib')

lemma ele_at_nat: "i < length pts \<Longrightarrow> ele_at pts (int i) = Inr (ele (pts ! i))"
  by (simp add: ele_at_def)

lemma js_less_div:
  "js_less d1 d2 \<Longrightarrow> \<exists>t. num_div (d - the d1) (the d2 - the d1) = Inr t"
  by (cases d1; cases d2) (simp_all add: num_div_def)

lemma sample_ele_ok:
  assumes "pts \<noteq> []"
  shows "\<exists>v. sample_ele pts cumDist d idx = Inr v"
proof (cases "int idx \<ge> int (length pts) - 1")
  case True
  then show ?thesis using assms by (simp add: sample_ele_def ele_at_last)
next
  case False
  then have i: "idx < length pts" "idx + 1 < length pts" by linarith+
  have e1: "ele_at pts (int idx) = Inr (ele (pts ! idx))"
    using i(1) by (rule ele_at_nat)
  have e2: "ele_at pts (int idx + 1) = Inr (ele (pts ! (idx + 1)))"
    using ele_at_nat [OF i(2)] by (simp add: add.commute)
  show ?thesis
  proof (cases "js_less (cumDist_at cumDist idx) (cumDist_at cumDist (idx + 1))")
    case True
    from js_less_div [OF True] obtain t where
      "num_div (d - the (cumDist_at cumDist idx))
         (the (cumDist_at cumDist (idx + 1)) - the (cumDist_at cumDist idx)) = Inr t" ..
    with False True e1 e2 show ?thesis by (simp add: sample_ele_def Let_def)
  next
    case no: False
    with False e1 e2 show ?thesis by (simp add: sample_ele_def Let_def)
  qed
qed

lemma steps_after:
  fixes d totalDist :: real
  assumes "d \<le> totalDist"
  shows "(if d + 25 \<le> totalDist then nat \<lfloor>(totalDist - (d + 25)) / 25\<rfloor> + 1 else 0) + 1
       = nat \<lfloor>(totalDist - d) / 25\<rfloor> + 1"
proof (cases "d + 25 \<le> totalDist")
  case True
  have "(totalDist - (d + 25)) / 25 = (totalDist - d) / 25 - 1"
    by (simp add: field_simps)
  then have "\<lfloor>(totalDist - (d + 25)) / 25\<rfloor> = \<lfloor>(totalDist - d) / 25 - 1\<rfloor>"
    by (rule arg_cong)
  then have f: "\<lfloor>(totalDist - (d + 25)) / 25\<rfloor> = \<lfloor>(totalDist - d) / 25\<rfloor> - 1"
    by (simp only: floor_diff_one)
  have "0 \<le> \<lfloor>(totalDist - (d + 25)) / 25\<rfloor>"
    using True by simp
  with f have "nat \<lfloor>(totalDist - (d + 25)) / 25\<rfloor> + 1 = nat \<lfloor>(totalDist - d) / 25\<rfloor>"
    by linarith
  with True show ?thesis by simp
next
  case False
  with assms have "0 \<le> (totalDist - d) / 25" "(totalDist - d) / 25 < 1"
    by simp_all
  then have "\<lfloor>(totalDist - d) / 25\<rfloor> = 0"
    by (simp add: floor_eq_iff)
  with False show ?thesis by simp
qed

lemma resample_loop_shape:
  assumes "pts \<noteq> []"
  shows "\<exists>out. resample_loop pts cumDist totalDist d idx samples = Inr (samples @ out)
           \<and> length out = (if d \<le> totalDist then nat \<lfloor>(totalDist - d) / 25\<rfloor> + 1 else 0)
           \<and> (\<forall>k < length out. dist_s (out ! k) = d + real k * 25)"
  using assms
proof (induction pts cumDist totalDist d idx samples rule: resample_loop.induct)
  case (1 pts cumDist totalDist d idx samples)
  show ?case
  proof (cases "d \<le> totalDist")
    case False
    then have "resample_loop pts cumDist totalDist d idx samples = Inr samples"
      by (simp add: resample_loop.simps [of pts cumDist totalDist d idx samples])
    with False show ?thesis by simp
  next
    case True
    let ?idx = "advance pts cumDist d idx"
    obtain v where v: "sample_ele pts cumDist d ?idx = Inr v"
      using sample_ele_ok [OF "1.prems"] by blast
    let ?s = "\<lparr>ele = v, dist_s = d\<rparr>"
    from "1.IH" [OF True v "1.prems"] obtain out where
      run: "resample_loop pts cumDist totalDist (d + SAMPLE_DISTANCE) ?idx (samples @ [?s])
              = Inr ((samples @ [?s]) @ out)"
      and len: "length out = (if d + SAMPLE_DISTANCE \<le> totalDist
                  then nat \<lfloor>(totalDist - (d + SAMPLE_DISTANCE)) / 25\<rfloor> + 1 else 0)"
      and pos: "\<forall>k < length out. dist_s (out ! k) = d + SAMPLE_DISTANCE + real k * 25"
      by blast
    have "resample_loop pts cumDist totalDist d idx samples = Inr (samples @ (?s # out))"
      using True v run by (simp add: resample_loop.simps [of pts cumDist totalDist d idx samples])
    moreover have "length (?s # out) = nat \<lfloor>(totalDist - d) / 25\<rfloor> + 1"
    proof -
      have len': "length out =
          (if d + 25 \<le> totalDist then nat \<lfloor>(totalDist - (d + 25)) / 25\<rfloor> + 1 else 0)"
        using len by (simp only: SAMPLE_DISTANCE_def)
      have "length (?s # out) = length out + 1" by simp
      also have "\<dots> = nat \<lfloor>(totalDist - d) / 25\<rfloor> + 1"
        unfolding len' by (rule steps_after [OF True])
      finally show ?thesis .
    qed
    moreover have "\<forall>k < length (?s # out). dist_s ((?s # out) ! k) = d + real k * 25"
    proof (intro allI impI)
      fix k assume k: "k < length (?s # out)"
      show "dist_s ((?s # out) ! k) = d + real k * 25"
      proof (cases k)
        case 0
        then show ?thesis by simp
      next
        case (Suc j)
        with k have "j < length out" by simp
        with pos have "dist_s (out ! j) = d + SAMPLE_DISTANCE + real j * 25" by blast
        with Suc show ?thesis by (simp add: SAMPLE_DISTANCE_def algebra_simps)
      qed
    qed
    ultimately show ?thesis using True by (intro exI [of _ "?s # out"]) simp
  qed
qed

text \<open>
  Claim C4. For a track with at least one point and a total distance \<open>totalDist \<ge> 0\<close>,
  the resampler returns exactly \<open>\<lfloor>totalDist / SAMPLE_DISTANCE\<rfloor> + 1\<close> samples, and the
  sample at position \<open>k\<close> has the distance \<open>k * SAMPLE_DISTANCE\<close>: the distances are
  \<open>0, S, 2S, \<dots>\<close> up to the largest multiple of the step that does not exceed the total.
\<close>

theorem resample_sample_count:
  assumes "pts \<noteq> []" and "0 \<le> totalDist"
  shows "\<exists>samples. resample pts cumDist totalDist = Inr samples
           \<and> length samples = nat \<lfloor>totalDist / SAMPLE_DISTANCE\<rfloor> + 1
           \<and> (\<forall>k < length samples. dist_s (samples ! k) = real k * SAMPLE_DISTANCE)"
  using resample_loop_shape [OF assms(1), of cumDist totalDist 0 0 "[]"] assms(2)
  by (simp add: resample_def SAMPLE_DISTANCE_def mult.commute)


theorem resample_sample_count_witness:
  "[\<lparr>ele = 100\<rparr>, \<lparr>ele = 110\<rparr>, \<lparr>ele = 100\<rparr>] \<noteq> [] \<and> (0::real) \<le> 100
   \<and> (\<exists>samples. resample [\<lparr>ele = 100\<rparr>, \<lparr>ele = 110\<rparr>, \<lparr>ele = 100\<rparr>] [0, 50, 100] 100 = Inr samples
         \<and> length samples = 5
         \<and> (\<forall>k < length samples. dist_s (samples ! k) = real k * 25))"
  using resample_sample_count [of "[\<lparr>ele = 100\<rparr>, \<lparr>ele = 110\<rparr>, \<lparr>ele = 100\<rparr>]" 100 "[0, 50, 100]"]
  by (simp add: SAMPLE_DISTANCE_def)

lemma sample_ele_coincident:
  assumes "idx + 1 < length pts"
    and "cumDist_at cumDist (idx + 1) = cumDist_at cumDist idx"
  shows "sample_ele pts cumDist d idx = Inr (ele (pts ! idx))"
proof -
  have i: "idx < length pts" using assms(1) by simp
  have e1: "ele_at pts (int idx) = Inr (ele (pts ! idx))"
    using i by (rule ele_at_nat)
  have e2: "ele_at pts (int idx + 1) = Inr (ele (pts ! (idx + 1)))"
    using ele_at_nat [OF assms(1)] by (simp add: add.commute)
  have "\<not> js_less (cumDist_at cumDist idx) (cumDist_at cumDist (idx + 1))"
    unfolding assms(2) by (cases "cumDist_at cumDist idx") simp_all
  moreover have "\<not> int idx \<ge> int (length pts) - 1"
    using assms(1) by linarith
  ultimately show ?thesis
    using e1 e2 by (simp add: sample_ele_def Let_def)
qed

lemma sample_ele_at_end:
  assumes "pts \<noteq> []" and "int idx \<ge> int (length pts) - 1"
  shows "sample_ele pts cumDist d idx = Inr (ele (last pts))"
  using assms by (simp add: sample_ele_def ele_at_last)

lemma sample_ele_no_division_by_zero:
  "sample_ele pts cumDist d idx \<noteq> Inl DivisionByZero"
proof (cases "pts = []")
  case True
  then show ?thesis by (simp add: sample_ele_def ele_at_def)
next
  case False
  then obtain v where "sample_ele pts cumDist d idx = Inr v"
    using sample_ele_ok by blast
  then show ?thesis by simp
qed

text \<open>
  Claim C9. The interpolation of the resampler never divides by zero, for any points,
  cumulative distances, target distance and index. When the two bracketing cumulative
  distances coincide the fraction is \<open>0\<close> and the sample takes the elevation of the
  earlier point. When the index has reached the last point the elevation of the last
  point is taken, with no read beyond the array; so on a track with at least one point
  the resampler returns its samples for every total distance, and for a total distance
  of \<open>0\<close> it returns the single sample at distance \<open>0\<close>.
\<close>

theorem resample_interpolation_safe:
  "sample_ele pts cumDist d idx \<noteq> Inl DivisionByZero
   \<and> (idx + 1 < length pts \<and> cumDist_at cumDist (idx + 1) = cumDist_at cumDist idx
        \<longrightarrow> sample_ele pts cumDist d idx = Inr (ele (pts ! idx)))
   \<and> (pts \<noteq> [] \<and> int idx \<ge> int (length pts) - 1
        \<longrightarrow> sample_ele pts cumDist d idx = Inr (ele (last pts)))
   \<and> (pts \<noteq> [] \<longrightarrow> (\<exists>samples. resample pts cumDist totalDist = Inr samples)
                    \<and> (\<exists>v. resample pts cumDist 0 = Inr [\<lparr>ele = v, dist_s = 0\<rparr>]))"
proof (intro conjI impI)
  show "sample_ele pts cumDist d idx \<noteq> Inl DivisionByZero"
    by (rule sample_ele_no_division_by_zero)
next
  assume "idx + 1 < length pts \<and> cumDist_at cumDist (idx + 1) = cumDist_at cumDist idx"
  then show "sample_ele pts cumDist d idx = Inr (ele (pts ! idx))"
    by (simp add: sample_ele_coincident)
next
  assume "pts \<noteq> [] \<and> int idx \<ge> int (length pts) - 1"
  then show "sample_ele pts cumDist d idx = Inr (ele (last pts))"
    by (simp add: sample_ele_at_end)
next
  assume ne: "pts \<noteq> []"
  from resample_loop_shape [OF ne, of cumDist totalDist 0 0 "[]"]
  show "\<exists>samples. resample pts cumDist totalDist = Inr samples"
    unfolding resample_def by auto
next
  assume ne: "pts \<noteq> []"
  from sample_ele_ok [OF ne] obtain v where
    v: "sample_ele pts cumDist 0 (advance pts cumDist 0 0) = Inr v" by blast
  have stop: "resample_loop pts cumDist 0 25 (advance pts cumDist 0 0)
                [\<lparr>ele = v, dist_s = 0\<rparr>] = Inr [\<lparr>ele = v, dist_s = 0\<rparr>]"
    by (simp add: resample_loop.simps [of _ _ 0 25])
  have "resample pts cumDist 0 = Inr [\<lparr>ele = v, dist_s = 0\<rparr>]"
    unfolding resample_def
    by (simp add: resample_loop.simps [of _ _ 0 0] v stop SAMPLE_DISTANCE_def)
  then show "\<exists>v. resample pts cumDist 0 = Inr [\<lparr>ele = v, dist_s = 0\<rparr>]" ..
qed

theorem resample_interpolation_safe_witness:
  "sample_ele [\<lparr>ele = 100\<rparr>, \<lparr>ele = 110\<rparr>, \<lparr>ele = 120\<rparr>] [0, 0, 50] 0 0 \<noteq> Inl DivisionByZero
   \<and> (0 + 1 < length [\<lparr>ele = 100\<rparr>, \<lparr>ele = 110\<rparr>, \<lparr>ele = 120\<rparr>]
      \<and> cumDist_at [0, 0, 50] (0 + 1) = cumDist_at [0, 0, 50] 0)
   \<and> sample_ele [\<lparr>ele = 100\<rparr>, \<lparr>ele = 110\<rparr>, \<lparr>ele = 120\<rparr>] [0, 0, 50] 0 0 = Inr 100
   \<and> [\<lparr>ele = 7\<rparr>] \<noteq> [] \<and> int 0 \<ge> int (length [\<lparr>ele = 7\<rparr>]) - 1
   \<and> sample_ele [\<lparr>ele = 7\<rparr>] [0] 0 0 = Inr 7
   \<and> resample [\<lparr>ele = 7\<rparr>] [0] 0 = Inr [\<lparr>ele = 7, dist_s = 0\<rparr>]"
proof -
  have a: "sample_ele [\<lparr>ele = 100\<rparr>, \<lparr>ele = 110\<rparr>, \<lparr>ele = 120\<rparr>] [0, 0, 50] 0 0 \<noteq> Inl DivisionByZero
     \<and> sample_ele [\<lparr>ele = 100\<rparr>, \<lparr>ele = 110\<rparr>, \<lparr>ele = 120\<rparr>] [0, 0, 50] 0 0 = Inr 100"
    using resample_interpolation_safe
      [of "[\<lparr>ele = 100\<rparr>, \<lparr>ele = 110\<rparr>, \<lparr>ele = 120\<rparr>]" "[0, 0, 50]" 0 0 0]
    by (simp add: cumDist_at_def)
  have b: "sample_ele [\<lparr>ele = 7\<rparr>] [0] 0 0 = Inr 7
     \<and> (\<exists>v. resample [\<lparr>ele = 7\<rparr>] [0] 0 = Inr [\<lparr>ele = v, dist_s = 0\<rparr>])"
    using resample_interpolation_safe [of "[\<lparr>ele = 7\<rparr>]" "[0]" 0 0 0]
    by simp
  have c: "resample [\<lparr>ele = 7\<rparr>] [0] 0 = Inr [\<lparr>ele = 7, dist_s = 0\<rparr>]"
    by (simp add: resample_def resample_loop.simps advance.simps sample_ele_def ele_at_def
        SAMPLE_DISTANCE_def)
  from a b c show ?thesis by (simp add: cumDist_at_def)
qed


subsection \<open>The curve simplifier\<close>

lemma dp_step_unfold:
  assumes "farthest pts sqTolerance lo hi = (Some index, m)"
  shows "dp_step pts sqTolerance lo hi =
          (if index - lo > 1 then dp_step pts sqTolerance lo index else []) @
          [pts ! index] @
          (if hi - index > 1 then dp_step pts sqTolerance index hi else [])"
  by (simp add: dp_step.simps [of pts sqTolerance lo hi] assms)

lemma dp_step_none:
  assumes "farthest pts sqTolerance lo hi = (None, m)"
  shows "dp_step pts sqTolerance lo hi = []"
  by (simp add: dp_step.simps [of pts sqTolerance lo hi] assms)

lemma dp_step_length:
  "length (dp_step pts sqTolerance lo hi) \<le> hi - lo - 1"
proof (induction pts sqTolerance lo hi rule: dp_step.induct)
  case (1 pts sqTolerance lo hi)
  obtain io m where far: "farthest pts sqTolerance lo hi = (io, m)"
    by (cases "farthest pts sqTolerance lo hi")
  show ?case
  proof (cases io)
    case None
    with far show ?thesis by (simp add: dp_step_none)
  next
    case (Some index)
    with far have f: "farthest pts sqTolerance lo hi = (Some index, m)" by simp
    then have b: "lo < index" "index < hi" using farthest_between by blast+
    define L where "L = (if index - lo > 1 then dp_step pts sqTolerance lo index else [])"
    define R where "R = (if hi - index > 1 then dp_step pts sqTolerance index hi else [])"
    have l: "length L \<le> index - lo - 1"
      using "1.IH"(1) [OF f [symmetric] refl] by (simp add: L_def)
    have r: "length R \<le> hi - index - 1"
      using "1.IH"(2) [OF f [symmetric] refl] by (simp add: R_def)
    have "dp_step pts sqTolerance lo hi = L @ [pts ! index] @ R"
      unfolding L_def R_def by (rule dp_step_unfold [OF f])
    then have "length (dp_step pts sqTolerance lo hi) = length L + 1 + length R"
      by simp
    with l r b show ?thesis by linarith
  qed
qed

lemma dp_step_set:
  "hi < length pts \<Longrightarrow> set (dp_step pts sqTolerance lo hi) \<subseteq> set pts"
proof (induction pts sqTolerance lo hi rule: dp_step.induct)
  case (1 pts sqTolerance lo hi)
  obtain io m where far: "farthest pts sqTolerance lo hi = (io, m)"
    by (cases "farthest pts sqTolerance lo hi")
  show ?case
  proof (cases io)
    case None
    with far show ?thesis by (simp add: dp_step_none)
  next
    case (Some index)
    with far have f: "farthest pts sqTolerance lo hi = (Some index, m)" by simp
    then have b: "lo < index" "index < hi" using farthest_between by blast+
    define L where "L = (if index - lo > 1 then dp_step pts sqTolerance lo index else [])"
    define R where "R = (if hi - index > 1 then dp_step pts sqTolerance index hi else [])"
    have il: "index < length pts" using b "1.prems" by simp
    have l: "set L \<subseteq> set pts"
    proof (cases "index - lo > 1")
      case True
      have "set (dp_step pts sqTolerance lo index) \<subseteq> set pts"
        by (rule "1.IH"(1) [OF f [symmetric] refl True il])
      moreover have "L = dp_step pts sqTolerance lo index"
        using True by (simp only: L_def if_True)
      ultimately show ?thesis by (simp only:)
    next
      case False
      then have "L = []" by (simp only: L_def if_False)
      then show ?thesis by simp
    qed
    have r: "set R \<subseteq> set pts"
    proof (cases "hi - index > 1")
      case True
      have "set (dp_step pts sqTolerance index hi) \<subseteq> set pts"
        by (rule "1.IH"(2) [OF f [symmetric] refl True "1.prems"])
      moreover have "R = dp_step pts sqTolerance index hi"
        using True by (simp only: R_def if_True)
      ultimately show ?thesis by (simp only:)
    next
      case False
      then have "R = []" by (simp only: R_def if_False)
      then show ?thesis by simp
    qed
    have mem: "pts ! index \<in> set pts" using il by simp
    have "dp_step pts sqTolerance lo hi = L @ [pts ! index] @ R"
      unfolding L_def R_def by (rule dp_step_unfold [OF f])
    then have "set (dp_step pts sqTolerance lo hi) = set L \<union> {pts ! index} \<union> set R"
      by simp
    with l r mem show ?thesis by blast
  qed
qed

text \<open>
  Claim C7. On a non-empty point sequence the simplifier returns a non-empty sequence
  whose first and last points are the first and last input points, that is no longer
  than the input, and whose every point has the \<open>x\<close> and \<open>y\<close> of some input point.
\<close>

theorem simplify_fidelity:
  assumes "pts \<noteq> []"
  shows "simplify_spec pts tolerance \<noteq> []
       \<and> hd (simplify_spec pts tolerance) = hd pts
       \<and> last (simplify_spec pts tolerance) = last pts
       \<and> length (simplify_spec pts tolerance) \<le> length pts
       \<and> (\<forall>p \<in> set (simplify_spec pts tolerance). \<exists>q \<in> set pts. x p = x q \<and> y p = y q)"
proof (cases "length pts \<le> 2")
  case True
  then show ?thesis using assms by (auto simp: simplify_spec_def)
next
  case False
  let ?mid = "dp_step pts (tolerance * tolerance) 0 (length pts - 1)"
  have s: "simplify_spec pts tolerance = [pts ! 0] @ ?mid @ [pts ! (length pts - 1)]"
    using False by (simp add: simplify_spec_def)
  have "simplify_spec pts tolerance \<noteq> []"
    by (simp add: s)
  moreover have "hd (simplify_spec pts tolerance) = hd pts"
    using assms by (simp add: s hd_conv_nth)
  moreover have "last (simplify_spec pts tolerance) = last pts"
    using assms by (simp add: s last_conv_nth)
  moreover have "length (simplify_spec pts tolerance) \<le> length pts"
    using dp_step_length [of pts "tolerance * tolerance" 0 "length pts - 1"] False
    by (simp add: s)
  moreover have "set (simplify_spec pts tolerance) \<subseteq> set pts"
  proof -
    have "set ?mid \<subseteq> set pts"
      using assms by (intro dp_step_set) simp
    moreover have "pts ! 0 \<in> set pts" "pts ! (length pts - 1) \<in> set pts"
      using assms by simp_all
    ultimately show ?thesis
      unfolding s by simp
  qed
  ultimately show ?thesis by blast
qed




theorem simplify_fidelity_witness:
  "[\<lparr>x = 0, y = 0\<rparr>, \<lparr>x = 25, y = 1\<rparr>, \<lparr>x = 50, y = 0\<rparr>] \<noteq> []
   \<and> simplify_spec [\<lparr>x = 0, y = 0\<rparr>, \<lparr>x = 25, y = 1\<rparr>, \<lparr>x = 50, y = 0\<rparr>] 3
       = [\<lparr>x = 0, y = 0\<rparr>, \<lparr>x = 50, y = 0\<rparr>]
   \<and> hd (simplify_spec [\<lparr>x = 0, y = 0\<rparr>, \<lparr>x = 25, y = 1\<rparr>, \<lparr>x = 50, y = 0\<rparr>] 3) = \<lparr>x = 0, y = 0\<rparr>
   \<and> last (simplify_spec [\<lparr>x = 0, y = 0\<rparr>, \<lparr>x = 25, y = 1\<rparr>, \<lparr>x = 50, y = 0\<rparr>] 3) = \<lparr>x = 50, y = 0\<rparr>
   \<and> length (simplify_spec [\<lparr>x = 0, y = 0\<rparr>, \<lparr>x = 25, y = 1\<rparr>, \<lparr>x = 50, y = 0\<rparr>] 3) \<le> 3"
proof -
  have ne: "[\<lparr>x = 0, y = 0\<rparr>, \<lparr>x = 25, y = 1\<rparr>, \<lparr>x = 50, y = 0\<rparr>] \<noteq> []"
    by simp
  have run: "simplify_spec [\<lparr>x = 0, y = 0\<rparr>, \<lparr>x = 25, y = 1\<rparr>, \<lparr>x = 50, y = 0\<rparr>] 3
       = [\<lparr>x = 0, y = 0\<rparr>, \<lparr>x = 50, y = 0\<rparr>]"
    by (simp add: simplify_spec_def farthest_def farther_def sqSegDist_def
        dp_step.simps [of _ _ 0 "Suc (Suc 0)"])
  from simplify_fidelity [OF ne, of 3] run show ?thesis
    by simp
qed

subsection \<open>The smoother\<close>

lemma half_eq: "half = 2"
  by (simp add: half_def windowSize_def SMOOTH_DISTANCE_def SAMPLE_DISTANCE_def)





subsection \<open>Rounding to double precision\<close>

lemma expo_bounds:
  "v \<noteq> 0 \<Longrightarrow> 2 powi expo v \<le> \<bar>v\<bar> \<and> \<bar>v\<bar> < 2 powi (expo v + 1)"
proof (induction v rule: expo.induct)
  case (1 v)
  show ?case
  proof (cases "2 \<le> \<bar>v\<bar>")
    case True
    with "1.prems" have e: "expo v = expo (v / 2) + 1"
      by (simp add: expo.simps [of v])
    from "1.IH"(1) [OF "1.prems" True] "1.prems"
    have "2 powi expo (v / 2) \<le> \<bar>v\<bar> / 2" "\<bar>v\<bar> / 2 < 2 powi (expo (v / 2) + 1)"
      by simp_all
    then show ?thesis
      unfolding e by (simp add: power_int_add)
  next
    case False
    show ?thesis
    proof (cases "\<bar>v\<bar> < 1")
      case True
      with False "1.prems" have e: "expo v = expo (v * 2) - 1"
        by (simp add: expo.simps [of v])
      from "1.IH"(2) [OF "1.prems" False True] "1.prems"
      have "2 powi expo (v * 2) \<le> \<bar>v\<bar> * 2" "\<bar>v\<bar> * 2 < 2 powi (expo (v * 2) + 1)"
        by (simp_all add: abs_mult)
      then show ?thesis
        unfolding e by (simp add: power_int_add power_int_diff)
    next
      case one: False
      with False "1.prems" have "expo v = 0"
        by (simp add: expo.simps [of v])
      with False one show ?thesis by simp
    qed
  qed
qed

lemma expo_unique:
  assumes "2 powi k \<le> \<bar>v\<bar>" and "\<bar>v\<bar> < 2 powi (k + 1)"
  shows "expo v = k"
proof -
  have "0 < (2::real) powi k" by simp
  with assms(1) have "0 < \<bar>v\<bar>" by linarith
  then have nz: "v \<noteq> 0" by auto
  from expo_bounds [OF nz] have b: "2 powi expo v \<le> \<bar>v\<bar>" "\<bar>v\<bar> < 2 powi (expo v + 1)"
    by simp_all
  have "(2::real) powi expo v < 2 powi (k + 1)"
    using b(1) assms(2) by linarith
  then have "expo v < k + 1"
  proof (rule contrapos_pp)
    assume "\<not> expo v < k + 1"
    then have "k + 1 \<le> expo v" by simp
    then have "(2::real) powi (k + 1) \<le> 2 powi expo v"
      by (rule power_int_increasing) simp
    then show "\<not> (2::real) powi expo v < 2 powi (k + 1)" by simp
  qed
  moreover have "(2::real) powi k < 2 powi (expo v + 1)"
    using b(2) assms(1) by linarith
  then have "k < expo v + 1"
  proof (rule contrapos_pp)
    assume "\<not> k < expo v + 1"
    then have "expo v + 1 \<le> k" by simp
    then have "(2::real) powi (expo v + 1) \<le> 2 powi k"
      by (rule power_int_increasing) simp
    then show "\<not> (2::real) powi k < 2 powi (expo v + 1)" by simp
  qed
  ultimately show ?thesis by linarith
qed

lemma ulp_pos: "0 < ulp v"
  by (simp add: ulp_def)

lemma rne_cases:
  obtains (down) "rne q = \<lfloor>q\<rfloor>" and "q - of_int \<lfloor>q\<rfloor> \<le> 1 / 2"
  | (up) "rne q = \<lfloor>q\<rfloor> + 1" and "1 / 2 \<le> q - of_int \<lfloor>q\<rfloor>"
proof (cases "q - of_int \<lfloor>q\<rfloor> < 1 / 2")
  case True
  then have "rne q = \<lfloor>q\<rfloor>" by (simp add: rne_def Let_def)
  with True down show ?thesis by simp
next
  case False
  show ?thesis
  proof (cases "1 / 2 < q - of_int \<lfloor>q\<rfloor>")
    case True
    with False have "rne q = \<lfloor>q\<rfloor> + 1" by (simp add: rne_def Let_def)
    with True up show ?thesis by simp
  next
    case half: False
    show ?thesis
    proof (cases "even \<lfloor>q\<rfloor>")
      case True
      with False half have "rne q = \<lfloor>q\<rfloor>" by (simp add: rne_def Let_def)
      with half down show ?thesis by simp
    next
      case odd: False
      with False half have "rne q = \<lfloor>q\<rfloor> + 1" by (simp add: rne_def Let_def)
      with False up show ?thesis by simp
    qed
  qed
qed

lemma rne_nearest: "\<bar>of_int (rne q) - q\<bar> \<le> \<bar>of_int n - q\<bar>"
proof -
  have fl: "of_int \<lfloor>q\<rfloor> \<le> q" "q < of_int \<lfloor>q\<rfloor> + 1"
    by linarith+
  have n: "of_int n \<le> (of_int \<lfloor>q\<rfloor> :: real) \<or> (of_int \<lfloor>q\<rfloor> :: real) + 1 \<le> of_int n"
  proof (cases "n \<le> \<lfloor>q\<rfloor>")
    case True
    then show ?thesis by simp
  next
    case False
    then have "\<lfloor>q\<rfloor> + 1 \<le> n" by simp
    then have "(of_int (\<lfloor>q\<rfloor> + 1) :: real) \<le> of_int n" by (simp only: of_int_le_iff)
    then show ?thesis by simp
  qed
  show ?thesis
  proof (cases q rule: rne_cases)
    case down
    with fl n show ?thesis by (simp only:) linarith
  next
    case up
    have "(of_int (\<lfloor>q\<rfloor> + 1) :: real) = of_int \<lfloor>q\<rfloor> + 1" by simp
    with up fl n show ?thesis by (simp only:) linarith
  qed
qed

lemma rne_of_int: "rne (of_int n) = n"
  by (simp add: rne_def)

lemma rne_le:
  assumes "q \<le> of_int n"
  shows "rne q \<le> n"
proof (cases q rule: rne_cases)
  case down
  from assms have "\<lfloor>q\<rfloor> \<le> n" by (simp add: floor_le_iff)
  with down show ?thesis by simp
next
  case up
  then have "of_int \<lfloor>q\<rfloor> < q" by linarith
  with assms have "(of_int \<lfloor>q\<rfloor> :: real) < of_int n" by linarith
  then have "\<lfloor>q\<rfloor> < n" by (simp only: of_int_less_iff)
  with up show ?thesis by simp
qed

lemma rne_ge:
  assumes "of_int n \<le> q"
  shows "n \<le> rne q"
proof -
  from assms have "n \<le> \<lfloor>q\<rfloor>" by (simp add: le_floor_iff)
  then show ?thesis
    by (cases q rule: rne_cases) simp_all
qed

lemma rne_minus: "rne (- q) = - rne q"
proof (cases "q = of_int \<lfloor>q\<rfloor>")
  case True
  then have "rne q = \<lfloor>q\<rfloor>"
    using rne_of_int [of "\<lfloor>q\<rfloor>"] by simp
  moreover from True have "- q = of_int (- \<lfloor>q\<rfloor>)" by simp
  then have "rne (- q) = - \<lfloor>q\<rfloor>"
    by (simp only: rne_of_int)
  ultimately show ?thesis by simp
next
  case False
  define f where "f = \<lfloor>q\<rfloor>"
  define r where "r = q - of_int f"
  have r: "0 < r" "r < 1" using False unfolding r_def f_def by linarith+
  have "of_int (- f - 1) \<le> - q" "- q < of_int (- f - 1) + 1"
    using r unfolding r_def by simp_all
  then have fm: "\<lfloor>- q\<rfloor> = - f - 1"
    by (simp only: floor_unique)
  have rm: "- q - of_int (- f - 1) = 1 - r"
    by (simp add: r_def)
  have a: "rne q = (if r < 1 / 2 then f else if 1 / 2 < r then f + 1 else if even f then f else f + 1)"
    unfolding rne_def Let_def f_def [symmetric] r_def [symmetric] ..
  have b: "rne (- q) = (if 1 - r < 1 / 2 then - f - 1 else if 1 / 2 < 1 - r then - f - 1 + 1
             else if even (- f - 1) then - f - 1 else - f - 1 + 1)"
    unfolding rne_def Let_def fm rm ..
  show ?thesis
    unfolding a b using r by auto
qed

lemma fl_zero: "fl 0 = 0"
  by (simp add: fl_def)

lemma expo_minus: "expo (- v) = expo v"
proof (cases "v = 0")
  case True
  then show ?thesis by simp
next
  case False
  from expo_bounds [OF False] show ?thesis
    by (intro expo_unique) simp_all
qed

lemma ulp_minus: "ulp (- v) = ulp v"
  by (simp add: ulp_def expo_minus)

lemma fl_minus: "fl (- v) = - fl v"
  by (simp add: fl_def ulp_minus rne_minus)

lemma fl_grid_nearest:
  assumes "v \<noteq> 0"
  shows "\<bar>fl v - v\<bar> \<le> \<bar>of_int n * ulp v - v\<bar>"
proof -
  let ?u = "ulp v"
  have u: "0 < ?u" by (rule ulp_pos)
  have "\<bar>fl v - v\<bar> = \<bar>(of_int (rne (v / ?u)) - v / ?u) * ?u\<bar>"
    using assms u by (simp add: fl_def algebra_simps)
  also have "\<dots> = \<bar>of_int (rne (v / ?u)) - v / ?u\<bar> * ?u"
    using u by (simp add: abs_mult)
  also have "\<dots> \<le> \<bar>of_int n - v / ?u\<bar> * ?u"
    using u rne_nearest [of "v / ?u" n] by (simp add: mult_right_mono)
  also have "\<dots> = \<bar>(of_int n - v / ?u) * ?u\<bar>"
    using u by (simp add: abs_mult)
  also have "\<dots> = \<bar>of_int n * ?u - v\<bar>"
    using u by (simp add: algebra_simps)
  finally show ?thesis .
qed

lemma ulp_scale: "2 powi expo v = 2 ^ 52 * ulp v" "2 powi (expo v + 1) = 2 ^ 53 * ulp v"
proof -
  have "(2::real) powi expo v = 2 powi (52 + (expo v - 52))"
    by (rule arg_cong [of _ _ "power_int 2"]) linarith
  also have "\<dots> = 2 powi 52 * 2 powi (expo v - 52)"
    by (subst power_int_add) simp_all
  finally show "2 powi expo v = 2 ^ 52 * ulp v"
    by (simp add: ulp_def)
  have "(2::real) powi (expo v + 1) = 2 powi (53 + (expo v - 52))"
    by (rule arg_cong [of _ _ "power_int 2"]) linarith
  also have "\<dots> = 2 powi 53 * 2 powi (expo v - 52)"
    by (subst power_int_add) simp_all
  finally show "2 powi (expo v + 1) = 2 ^ 53 * ulp v"
    by (simp add: ulp_def)
qed

lemma fl_idem_pos:
  assumes "0 < v"
  shows "fl (fl v) = fl v"
proof -
  let ?u = "ulp v" and ?m = "rne (v / ulp v)"
  have u: "0 < ?u" by (rule ulp_pos)
  have nz: "v \<noteq> 0" using assms by simp
  from expo_bounds [OF nz] assms have b: "2 ^ 52 * ?u \<le> v" "v < 2 ^ 53 * ?u"
    by (simp_all add: ulp_scale)
  have q: "of_int (2 ^ 52) \<le> v / ?u" "v / ?u \<le> of_int (2 ^ 53)"
    using b u by (simp_all add: field_simps)
  have m: "2 ^ 52 \<le> ?m" "?m \<le> 2 ^ 53"
    using rne_ge [OF q(1)] rne_le [OF q(2)] by simp_all
  have z: "fl v = of_int ?m * ?u"
    using nz by (simp add: fl_def)
  have mr: "(2 ^ 52 :: real) \<le> of_int ?m" "(of_int ?m :: real) \<le> 2 ^ 53"
    using m by (simp_all only: of_int_le_iff [symmetric, where 'a = real] of_int_power of_int_numeral)
  show ?thesis
  proof (cases "?m = 2 ^ 53")
    case False
    with m have "?m < 2 ^ 53" by simp
    then have "(of_int ?m :: real) < of_int (2 ^ 53)" by (simp only: of_int_less_iff)
    then have lt: "(of_int ?m :: real) < 2 ^ 53" by simp
    have "2 powi expo v \<le> \<bar>fl v\<bar>" "\<bar>fl v\<bar> < 2 powi (expo v + 1)"
      using mr(1) lt u by (simp_all add: z ulp_scale abs_mult)
    then have e: "expo (fl v) = expo v" by (rule expo_unique)
    then have uz: "ulp (fl v) = ?u" by (simp add: ulp_def)
    have nzz: "fl v \<noteq> 0" using mr(1) u by (simp add: z)
    have "fl v / ?u = of_int ?m" using u by (simp add: z)
    then have r: "rne (fl v / ?u) = ?m" by (simp only: rne_of_int)
    have "fl (fl v) = of_int (rne (fl v / ulp (fl v))) * ulp (fl v)"
      using nzz by (simp only: fl_def [of "fl v"] if_False)
    also have "\<dots> = of_int (rne (fl v / ?u)) * ?u" by (simp only: uz)
    also have "\<dots> = of_int ?m * ?u" by (simp only: r)
    also have "\<dots> = fl v" by (rule z [symmetric])
    finally show ?thesis .
  next
    case True
    then have zz: "fl v = 2 ^ 53 * ?u" by (simp add: z)
    have p2: "2 powi (expo v + 1 + 1) = 2 * (2 powi (expo v + 1) :: real)"
      by (subst power_int_add) simp_all
    have s1: "2 powi (expo v + 1) = 2 ^ 53 * ?u" by (rule ulp_scale(2))
    have s2: "2 powi (expo v + 1 + 1) = 2 * (2 ^ 53 * ?u)" unfolding p2 s1 ..
    have "2 powi (expo v + 1) \<le> \<bar>fl v\<bar>"
      unfolding s1 zz using u by simp
    moreover have "\<bar>fl v\<bar> < 2 powi (expo v + 1 + 1)"
      unfolding s2 zz using u by simp
    ultimately have e: "expo (fl v) = expo v + 1" by (rule expo_unique)
    have uz: "ulp (fl v) = 2 * ?u"
    proof -
      have "(2::real) powi (expo v + 1 - 52) = 2 powi (1 + (expo v - 52))"
        by (rule arg_cong [of _ _ "power_int 2"]) linarith
      also have "\<dots> = 2 powi 1 * 2 powi (expo v - 52)"
        by (subst power_int_add) simp_all
      finally show ?thesis by (simp add: ulp_def e)
    qed
    have nzz: "fl v \<noteq> 0" using u by (simp add: zz)
    have "fl v / (2 * ?u) = of_int (2 ^ 52)" using u by (simp add: zz)
    then have r: "rne (fl v / (2 * ?u)) = 2 ^ 52" by (simp only: rne_of_int)
    have "fl (fl v) = of_int (rne (fl v / ulp (fl v))) * ulp (fl v)"
      using nzz by (simp only: fl_def [of "fl v"] if_False)
    also have "\<dots> = of_int (rne (fl v / (2 * ?u))) * (2 * ?u)" by (simp only: uz)
    also have "\<dots> = of_int (2 ^ 52) * (2 * ?u)" by (simp only: r)
    also have "\<dots> = fl v" by (simp add: zz)
    finally show ?thesis .
  qed
qed

lemma fl_idem: "fl (fl v) = fl v"
proof (cases "0 < v")
  case True
  then show ?thesis by (rule fl_idem_pos)
next
  case False
  show ?thesis
  proof (cases "v = 0")
    case True
    then show ?thesis by (simp add: fl_zero)
  next
    case nz: False
    with False have "0 < - v" by simp
    then have "fl (fl (- v)) = fl (- v)" by (rule fl_idem_pos)
    then show ?thesis by (simp add: fl_minus)
  qed
qed

lemma fl_nearest:
  assumes "fl d = d"
  shows "\<bar>fl v - v\<bar> \<le> \<bar>d - v\<bar>"
proof (cases "v = 0")
  case True
  then show ?thesis by (simp add: fl_zero)
next
  case nz: False
  let ?u = "ulp v"
  have u: "0 < ?u" by (rule ulp_pos)
  show ?thesis
  proof (cases "d = 0")
    case True
    from fl_grid_nearest [OF nz, of 0] True show ?thesis by simp
  next
    case dnz: False
    let ?k = "rne (d / ulp d)"
    have d: "d = of_int ?k * ulp d"
      using assms dnz by (simp add: fl_def)
    show ?thesis
    proof (cases "expo v \<le> expo d")
      case True
      define j where "j = nat (expo d - expo v)"
      have "expo d - 52 = int j + (expo v - 52)"
        using True by (simp add: j_def)
      then have "ulp d = 2 powi (int j + (expo v - 52))"
        by (simp only: ulp_def)
      also have "\<dots> = 2 powi int j * 2 powi (expo v - 52)"
        by (subst power_int_add) simp_all
      also have "\<dots> = of_int (2 ^ j) * ?u"
        by (simp add: ulp_def)
      finally have "d = of_int (?k * 2 ^ j) * ?u"
        using d by simp
      with fl_grid_nearest [OF nz, of "?k * 2 ^ j"] show ?thesis
        by simp
    next
      case False
      then have "expo d + 1 \<le> expo v" by simp
      then have "(2::real) powi (expo d + 1) \<le> 2 powi expo v"
        by (rule power_int_increasing) simp
      with expo_bounds [OF dnz] have dlt: "\<bar>d\<bar> < 2 powi expo v"
        by linarith
      from expo_bounds [OF nz] have vge: "2 powi expo v \<le> \<bar>v\<bar>"
        by simp
      have g: "2 powi expo v = of_int (2 ^ 52) * ?u"
        by (simp add: ulp_scale)
      show ?thesis
      proof (cases "0 < v")
        case True
        from fl_grid_nearest [OF nz, of "2 ^ 52"]
        have "\<bar>fl v - v\<bar> \<le> \<bar>2 powi expo v - v\<bar>"
          by (simp only: g)
        with dlt vge True show ?thesis by linarith
      next
        case neg: False
        from fl_grid_nearest [OF nz, of "- (2 ^ 52)"]
        have "\<bar>fl v - v\<bar> \<le> \<bar>- (2 powi expo v) - v\<bar>"
          by (simp add: g)
        with dlt vge neg nz show ?thesis by linarith
      qed
    qed
  qed
qed

lemma fl_mono:
  assumes "v \<le> w"
  shows "fl v \<le> fl w"
proof (rule ccontr)
  assume "\<not> fl v \<le> fl w"
  then have lt: "fl w < fl v" by simp
  have a: "\<bar>fl v - v\<bar> \<le> \<bar>fl w - v\<bar>"
    by (rule fl_nearest) (rule fl_idem)
  have b: "\<bar>fl w - w\<bar> \<le> \<bar>fl v - w\<bar>"
    by (rule fl_nearest) (rule fl_idem)
  from a lt have "fl v + fl w \<le> 2 * v" by linarith
  moreover from b lt have "2 * w \<le> fl v + fl w" by linarith
  ultimately have "v = w" using assms by linarith
  with lt show False by simp
qed

subsection \<open>The gain and loss accumulator\<close>

lemmas fl_eval = fl_def ulp_def expo.simps rne_def

lemma acc_step_double:
  assumes "fl (gain st) = gain st" and "fl (loss st) = loss st"
  shows "fl (gain (acc_step st s)) = gain (acc_step st s)
       \<and> fl (loss (acc_step st s)) = loss (acc_step st s)"
  using assms by (simp add: acc_step_def Let_def fl_idem)

lemma acc_step_mono:
  assumes "fl (gain st) = gain st" and "fl (loss st) = loss st"
  shows "gain st \<le> gain (acc_step st s) \<and> loss st \<le> loss (acc_step st s)"
proof -
  let ?diff = "fl (ele s - anchor st)"
  show ?thesis
  proof (cases "THRESHOLD \<le> ?diff")
    case True
    then have "gain st \<le> gain st + ?diff" by (simp add: THRESHOLD_def)
    then have "fl (gain st) \<le> fl (gain st + ?diff)" by (rule fl_mono)
    with assms(1) have "gain st \<le> fl (gain st + ?diff)" by simp
    with True show ?thesis by (simp add: acc_step_def Let_def)
  next
    case False
    show ?thesis
    proof (cases "?diff \<le> - THRESHOLD")
      case True
      have "loss st \<le> loss st + \<bar>?diff\<bar>" by simp
      then have "fl (loss st) \<le> fl (loss st + \<bar>?diff\<bar>)" by (rule fl_mono)
      with assms(2) have "loss st \<le> fl (loss st + \<bar>?diff\<bar>)" by simp
      with False True show ?thesis by (simp add: acc_step_def Let_def del: abs_le_zero_iff)
    next
      case no: False
      with False show ?thesis by (simp add: acc_step_def Let_def)
    qed
  qed
qed

lemma acc_loop_mono:
  assumes "fl (gain st) = gain st" and "fl (loss st) = loss st"
  shows "gain st \<le> gain (acc_loop rest st) \<and> loss st \<le> loss (acc_loop rest st)"
  using assms
proof (induction rest arbitrary: st)
  case Nil
  show ?case by simp
next
  case (Cons s rest)
  from acc_step_double [OF Cons.prems, of s]
  have "gain (acc_step st s) \<le> gain (acc_loop rest (acc_step st s))
      \<and> loss (acc_step st s) \<le> loss (acc_loop rest (acc_step st s))"
    by (intro Cons.IH) simp_all
  with acc_step_mono [OF Cons.prems, of s] show ?case
    by simp
qed

lemma acc_loop_double:
  assumes "fl (gain st) = gain st" and "fl (loss st) = loss st"
  shows "fl (gain (acc_loop rest st)) = gain (acc_loop rest st)
       \<and> fl (loss (acc_loop rest st)) = loss (acc_loop rest st)"
  using assms
proof (induction rest arbitrary: st)
  case Nil
  then show ?case by simp
next
  case (Cons s rest)
  from acc_step_double [OF Cons.prems, of s] show ?case
    by (simp add: Cons.IH)
qed

lemma acc_loop_append:
  "acc_loop (xs @ ys) st = acc_loop ys (acc_loop xs st)"
  by (induction xs arbitrary: st) simp_all

lemma acc_loop_quiet:
  assumes "\<forall>s \<in> set rest. \<bar>fl (ele s - anchor st)\<bar> < THRESHOLD"
  shows "acc_loop rest st = st"
  using assms
proof (induction rest)
  case Nil
  show ?case by simp
next
  case (Cons s rest)
  from Cons.prems have "\<bar>fl (ele s - anchor st)\<bar> < THRESHOLD"
    by simp
  then have "\<not> fl (ele s - anchor st) \<ge> THRESHOLD" "\<not> fl (ele s - anchor st) \<le> - THRESHOLD"
    by linarith+
  then have "acc_step st s = st"
    by (simp add: acc_step_def Let_def)
  with Cons show ?case by simp
qed

lemma exact_turn_balance:
  assumes "exact_turn st s"
  shows "gain (acc_step st s) - loss (acc_step st s) - anchor (acc_step st s)
           = gain st - loss st - anchor st"
proof -
  from assms have d: "fl (ele s - anchor st) = ele s - anchor st"
    by (simp add: exact_turn_def Let_def)
  from assms show ?thesis
    unfolding acc_step_def exact_turn_def Let_def d
    by (auto simp: THRESHOLD_def split: if_splits)
qed

lemma exact_loop_balance:
  assumes "exact_loop rest st"
  shows "gain (acc_loop rest st) - loss (acc_loop rest st) - anchor (acc_loop rest st)
           = gain st - loss st - anchor st"
  using assms
proof (induction rest arbitrary: st)
  case Nil
  show ?case by simp
next
  case (Cons s rest)
  then have "exact_turn st s" "exact_loop rest (acc_step st s)"
    by simp_all
  with Cons.IH [of "acc_step st s"] exact_turn_balance [of st s] show ?case
    by simp
qed

text \<open>
  Claim C5, as the code has it. The threshold test reads the difference as the double
  subtraction returns it. On a non-empty smoothed sequence whose elevation range, the
  maximum minus the minimum rounded to double precision, is strictly below the
  threshold, the accumulator returns gain \<open>0\<close> and loss \<open>0\<close>.
\<close>

theorem accumulate_below_threshold:
  assumes "smoothed \<noteq> []"
    and "fl (Max (ele ` set smoothed) - Min (ele ` set smoothed)) < THRESHOLD"
  shows "\<exists>acc. accumulate smoothed = Inr acc \<and> gain acc = 0 \<and> loss acc = 0"
proof -
  from assms(1) obtain s0 rest where sm: "smoothed = s0 # rest"
    by (cases smoothed) auto
  let ?init = "\<lparr>gain = 0, loss = 0, anchor = ele s0\<rparr>"
  let ?range = "Max (ele ` set smoothed) - Min (ele ` set smoothed)"
  have fin: "finite (ele ` set smoothed)" by simp
  have "\<forall>s \<in> set rest. \<bar>fl (ele s - anchor ?init)\<bar> < THRESHOLD"
  proof
    fix s assume "s \<in> set rest"
    then have m: "ele s \<in> ele ` set smoothed" "ele s0 \<in> ele ` set smoothed"
      by (simp_all add: sm)
    have "ele s \<le> Max (ele ` set smoothed)" "Min (ele ` set smoothed) \<le> ele s"
      "ele s0 \<le> Max (ele ` set smoothed)" "Min (ele ` set smoothed) \<le> ele s0"
      using m fin by (simp_all only: Max_ge Min_le)
    then have b: "ele s - ele s0 \<le> ?range" "- ?range \<le> ele s - ele s0"
      by linarith+
    have "fl (ele s - ele s0) \<le> fl ?range"
      using b(1) by (rule fl_mono)
    moreover have "fl (- ?range) \<le> fl (ele s - ele s0)"
      using b(2) by (rule fl_mono)
    then have "- fl ?range \<le> fl (ele s - ele s0)"
      by (simp only: fl_minus)
    ultimately show "\<bar>fl (ele s - anchor ?init)\<bar> < THRESHOLD"
      using assms(2) by simp
  qed
  then have "acc_loop rest ?init = ?init"
    by (rule acc_loop_quiet)
  then show ?thesis
    by (simp add: accumulate_def sm)
qed

theorem accumulate_below_threshold_witness:
  "[\<lparr>ele = 105, dist_s = 0\<rparr>, \<lparr>ele = 104, dist_s = 25\<rparr>, \<lparr>ele = 107, dist_s = 50\<rparr>] \<noteq> []
   \<and> fl (Max (ele ` set [\<lparr>ele = 105, dist_s = 0\<rparr>, \<lparr>ele = 104, dist_s = 25\<rparr>, \<lparr>ele = 107, dist_s = 50\<rparr>])
         - Min (ele ` set [\<lparr>ele = 105, dist_s = 0\<rparr>, \<lparr>ele = 104, dist_s = 25\<rparr>, \<lparr>ele = 107, dist_s = 50\<rparr>]))
     < THRESHOLD
   \<and> accumulate [\<lparr>ele = 105, dist_s = 0\<rparr>, \<lparr>ele = 104, dist_s = 25\<rparr>, \<lparr>ele = 107, dist_s = 50\<rparr>]
     = Inr \<lparr>gain = 0, loss = 0, anchor = 105\<rparr>"
proof -
  have ne: "[\<lparr>ele = 105, dist_s = 0\<rparr>, \<lparr>ele = 104, dist_s = 25\<rparr>, \<lparr>ele = 107, dist_s = 50\<rparr>] \<noteq> []"
    by simp
  have rng: "fl (Max (ele ` set [\<lparr>ele = 105, dist_s = 0\<rparr>, \<lparr>ele = 104, dist_s = 25\<rparr>, \<lparr>ele = 107, dist_s = 50\<rparr>])
         - Min (ele ` set [\<lparr>ele = 105, dist_s = 0\<rparr>, \<lparr>ele = 104, dist_s = 25\<rparr>, \<lparr>ele = 107, dist_s = 50\<rparr>]))
     < THRESHOLD"
    by (simp add: THRESHOLD_def fl_eval)
  have run: "accumulate [\<lparr>ele = 105, dist_s = 0\<rparr>, \<lparr>ele = 104, dist_s = 25\<rparr>, \<lparr>ele = 107, dist_s = 50\<rparr>]
     = Inr \<lparr>gain = 0, loss = 0, anchor = 105\<rparr>"
    by (simp add: accumulate_def acc_step_def THRESHOLD_def fl_eval)
  from accumulate_below_threshold [OF ne rng] ne rng run show ?thesis
    by simp
qed

text \<open>
  With the exact range the claim fails. The elevations \<open>- 2\<close>, \<open>- 1 / 2 ^ 52\<close>,
  \<open>- 1 / 2 ^ 52\<close>, \<open>2 - 1 / 2 ^ 52\<close> are doubles with a range of \<open>4 - 1 / 2 ^ 52\<close>, below
  the threshold, and the last difference to the anchor rounds to \<open>4\<close>: the gain is \<open>4\<close>.
\<close>

theorem accumulate_below_threshold_counterexample:
  "Max (ele ` set [\<lparr>ele = - 2, dist_s = 0\<rparr>, \<lparr>ele = - (1 / 2 ^ 52), dist_s = 25\<rparr>,
                   \<lparr>ele = - (1 / 2 ^ 52), dist_s = 50\<rparr>, \<lparr>ele = 2 - 1 / 2 ^ 52, dist_s = 75\<rparr>])
     - Min (ele ` set [\<lparr>ele = - 2, dist_s = 0\<rparr>, \<lparr>ele = - (1 / 2 ^ 52), dist_s = 25\<rparr>,
                       \<lparr>ele = - (1 / 2 ^ 52), dist_s = 50\<rparr>, \<lparr>ele = 2 - 1 / 2 ^ 52, dist_s = 75\<rparr>])
     < THRESHOLD
   \<and> accumulate [\<lparr>ele = - 2, dist_s = 0\<rparr>, \<lparr>ele = - (1 / 2 ^ 52), dist_s = 25\<rparr>,
                 \<lparr>ele = - (1 / 2 ^ 52), dist_s = 50\<rparr>, \<lparr>ele = 2 - 1 / 2 ^ 52, dist_s = 75\<rparr>]
     = Inr \<lparr>gain = 4, loss = 0, anchor = 2 - 1 / 2 ^ 52\<rparr>"
proof -
  have rng: "Max (ele ` set [\<lparr>ele = - 2, dist_s = 0\<rparr>, \<lparr>ele = - (1 / 2 ^ 52), dist_s = 25\<rparr>,
                   \<lparr>ele = - (1 / 2 ^ 52), dist_s = 50\<rparr>, \<lparr>ele = 2 - 1 / 2 ^ 52, dist_s = 75\<rparr>])
     - Min (ele ` set [\<lparr>ele = - 2, dist_s = 0\<rparr>, \<lparr>ele = - (1 / 2 ^ 52), dist_s = 25\<rparr>,
                       \<lparr>ele = - (1 / 2 ^ 52), dist_s = 50\<rparr>, \<lparr>ele = 2 - 1 / 2 ^ 52, dist_s = 75\<rparr>])
     < THRESHOLD"
    by (simp add: THRESHOLD_def)
  have run: "accumulate [\<lparr>ele = - 2, dist_s = 0\<rparr>, \<lparr>ele = - (1 / 2 ^ 52), dist_s = 25\<rparr>,
                 \<lparr>ele = - (1 / 2 ^ 52), dist_s = 50\<rparr>, \<lparr>ele = 2 - 1 / 2 ^ 52, dist_s = 75\<rparr>]
     = Inr \<lparr>gain = 4, loss = 0, anchor = 2 - 1 / 2 ^ 52\<rparr>"
    by (simp add: accumulate_def acc_step_def THRESHOLD_def fl_eval)
  from rng run show ?thesis ..
qed

text \<open>
  Claim C10, as the code has it. The invariant of the accumulator's fold. After any
  non-empty prefix of a smoothed sequence has been processed, gain and loss are at
  least \<open>0\<close>, and from a prefix to a longer one neither the gain nor the loss decreases.
  The gain minus the loss equals the anchor minus the first elevation when no
  subtraction and no addition of the fold has been rounded.
\<close>

theorem accumulate_invariant:
  assumes "1 \<le> k" and "k \<le> j" and "j \<le> length smoothed"
  shows "\<exists>a b. accumulate (take k smoothed) = Inr a \<and> accumulate (take j smoothed) = Inr b
           \<and> 0 \<le> gain a \<and> 0 \<le> loss a
           \<and> gain a \<le> gain b \<and> loss a \<le> loss b
           \<and> (exact_run (take k smoothed) \<longrightarrow>
                 gain a - loss a = anchor a - ele (hd smoothed))"
proof -
  from assms obtain s0 rest where sm: "smoothed = s0 # rest"
    by (cases smoothed) auto
  let ?init = "\<lparr>gain = 0, loss = 0, anchor = ele s0\<rparr>"
  let ?a = "acc_loop (take (k - 1) rest) ?init"
  let ?b = "acc_loop (take (j - 1) rest) ?init"
  have i0: "fl (gain ?init) = gain ?init" "fl (loss ?init) = loss ?init"
    by (simp_all add: fl_zero)
  have ta: "take k smoothed = s0 # take (k - 1) rest"
    using assms(1) by (cases k) (simp_all add: sm)
  have tb: "take j smoothed = s0 # take (j - 1) rest"
    using assms(1,2) by (cases j) (simp_all add: sm)
  have a: "accumulate (take k smoothed) = Inr ?a"
    by (simp add: ta accumulate_def)
  have b: "accumulate (take j smoothed) = Inr ?b"
    by (simp add: tb accumulate_def)
  have pos: "0 \<le> gain ?a \<and> 0 \<le> loss ?a"
    using acc_loop_mono [OF i0, of "take (k - 1) rest"] by simp
  have da: "fl (gain ?a) = gain ?a" "fl (loss ?a) = loss ?a"
    using acc_loop_double [OF i0, of "take (k - 1) rest"] by simp_all
  have "take (j - 1) rest = take (k - 1) rest @ drop (k - 1) (take (j - 1) rest)"
  proof -
    have "take (k - 1) (take (j - 1) rest) = take (k - 1) rest"
      using assms(2) by (simp add: min_def)
    then show ?thesis
      by (metis append_take_drop_id)
  qed
  then have "?b = acc_loop (drop (k - 1) (take (j - 1) rest)) ?a"
    by (metis acc_loop_append)
  then have mono: "gain ?a \<le> gain ?b \<and> loss ?a \<le> loss ?b"
    using acc_loop_mono [OF da, of "drop (k - 1) (take (j - 1) rest)"] by simp
  have bal: "exact_run (take k smoothed) \<longrightarrow> gain ?a - loss ?a = anchor ?a - ele (hd smoothed)"
  proof
    assume "exact_run (take k smoothed)"
    then have "exact_loop (take (k - 1) rest) ?init"
      by (simp add: exact_run_def ta)
    from exact_loop_balance [OF this] show "gain ?a - loss ?a = anchor ?a - ele (hd smoothed)"
      by (simp add: sm)
  qed
  from a b pos mono bal show ?thesis by blast
qed

theorem accumulate_invariant_witness:
  "(1::nat) \<le> 2 \<and> (2::nat) \<le> 3
   \<and> 3 \<le> length [\<lparr>ele = 100, dist_s = 0\<rparr>, \<lparr>ele = 106, dist_s = 25\<rparr>, \<lparr>ele = 101, dist_s = 50\<rparr>]
   \<and> exact_run (take 2 [\<lparr>ele = 100, dist_s = 0\<rparr>, \<lparr>ele = 106, dist_s = 25\<rparr>, \<lparr>ele = 101, dist_s = 50\<rparr>])
   \<and> accumulate (take 2 [\<lparr>ele = 100, dist_s = 0\<rparr>, \<lparr>ele = 106, dist_s = 25\<rparr>, \<lparr>ele = 101, dist_s = 50\<rparr>])
       = Inr \<lparr>gain = 6, loss = 0, anchor = 106\<rparr>
   \<and> accumulate (take 3 [\<lparr>ele = 100, dist_s = 0\<rparr>, \<lparr>ele = 106, dist_s = 25\<rparr>, \<lparr>ele = 101, dist_s = 50\<rparr>])
       = Inr \<lparr>gain = 6, loss = 5, anchor = 101\<rparr>
   \<and> (\<exists>a b. accumulate (take 2 [\<lparr>ele = 100, dist_s = 0\<rparr>, \<lparr>ele = 106, dist_s = 25\<rparr>, \<lparr>ele = 101, dist_s = 50\<rparr>]) = Inr a
         \<and> accumulate (take 3 [\<lparr>ele = 100, dist_s = 0\<rparr>, \<lparr>ele = 106, dist_s = 25\<rparr>, \<lparr>ele = 101, dist_s = 50\<rparr>]) = Inr b
         \<and> 0 \<le> gain a \<and> 0 \<le> loss a \<and> gain a \<le> gain b \<and> loss a \<le> loss b
         \<and> gain a - loss a
             = anchor a - ele (hd [\<lparr>ele = 100, dist_s = 0\<rparr>, \<lparr>ele = 106, dist_s = 25\<rparr>, \<lparr>ele = 101, dist_s = 50\<rparr>]))"
proof -
  have h: "(1::nat) \<le> 2" "(2::nat) \<le> 3"
    "3 \<le> length [\<lparr>ele = 100, dist_s = 0\<rparr>, \<lparr>ele = 106, dist_s = 25\<rparr>, \<lparr>ele = 101, dist_s = 50\<rparr>]"
    by simp_all
  have f: "fl (106 - 100) = 6" "fl (0 + 6) = 6" "fl (101 - 106) = - 5" "fl (0 + \<bar>- 5\<bar>) = 5"
    by (simp_all add: fl_eval)
  have ex: "exact_run (take 2 [\<lparr>ele = 100, dist_s = 0\<rparr>, \<lparr>ele = 106, dist_s = 25\<rparr>, \<lparr>ele = 101, dist_s = 50\<rparr>])"
    using f by (simp add: exact_run_def exact_turn_def THRESHOLD_def)
  have run2: "accumulate (take 2 [\<lparr>ele = 100, dist_s = 0\<rparr>, \<lparr>ele = 106, dist_s = 25\<rparr>, \<lparr>ele = 101, dist_s = 50\<rparr>])
       = Inr \<lparr>gain = 6, loss = 0, anchor = 106\<rparr>"
    using f by (simp add: accumulate_def acc_step_def THRESHOLD_def)
  have run3: "accumulate (take 3 [\<lparr>ele = 100, dist_s = 0\<rparr>, \<lparr>ele = 106, dist_s = 25\<rparr>, \<lparr>ele = 101, dist_s = 50\<rparr>])
       = Inr \<lparr>gain = 6, loss = 5, anchor = 101\<rparr>"
    using f by (simp add: accumulate_def acc_step_def THRESHOLD_def)
  from accumulate_invariant [OF h] ex have
    "\<exists>a b. accumulate (take 2 [\<lparr>ele = 100, dist_s = 0\<rparr>, \<lparr>ele = 106, dist_s = 25\<rparr>, \<lparr>ele = 101, dist_s = 50\<rparr>]) = Inr a
         \<and> accumulate (take 3 [\<lparr>ele = 100, dist_s = 0\<rparr>, \<lparr>ele = 106, dist_s = 25\<rparr>, \<lparr>ele = 101, dist_s = 50\<rparr>]) = Inr b
         \<and> 0 \<le> gain a \<and> 0 \<le> loss a \<and> gain a \<le> gain b \<and> loss a \<le> loss b
         \<and> gain a - loss a
             = anchor a - ele (hd [\<lparr>ele = 100, dist_s = 0\<rparr>, \<lparr>ele = 106, dist_s = 25\<rparr>, \<lparr>ele = 101, dist_s = 50\<rparr>])"
    by blast
  with h ex run2 run3 show ?thesis by blast
qed

text \<open>
  With rounding the balance fails. The sequence below is what the smoother holds for
  the elevations 1, 0, 0, 23, 19 at 25 m steps: the doubles nearest to \<open>1/3\<close> and to
  \<open>43/5\<close>, and \<open>6\<close>, \<open>21/2\<close>, \<open>14\<close>. The fold ends with the gain
  \<open>5723324526450006 / 2 ^ 49\<close>, the loss \<open>0\<close> and the anchor \<open>21/2\<close>; the anchor minus
  the first elevation is another number, and rounds to another double.
\<close>

theorem accumulate_invariant_counterexample:
  "accumulate [\<lparr>ele = 6004799503160661 / 2 ^ 54, dist_s = 0\<rparr>, \<lparr>ele = 6, dist_s = 25\<rparr>,
               \<lparr>ele = 4841369599423283 / 2 ^ 49, dist_s = 50\<rparr>, \<lparr>ele = 21 / 2, dist_s = 75\<rparr>,
               \<lparr>ele = 14, dist_s = 100\<rparr>]
     = Inr \<lparr>gain = 5723324526450006 / 2 ^ 49, loss = 0, anchor = 21 / 2\<rparr>
   \<and> 5723324526450006 / 2 ^ 49 - 0 \<noteq> (21 / 2 - 6004799503160661 / 2 ^ 54 :: real)
   \<and> fl (5723324526450006 / 2 ^ 49 - 0) \<noteq> fl (21 / 2 - 6004799503160661 / 2 ^ 54)"
proof -
  have run: "accumulate [\<lparr>ele = 6004799503160661 / 2 ^ 54, dist_s = 0\<rparr>, \<lparr>ele = 6, dist_s = 25\<rparr>,
               \<lparr>ele = 4841369599423283 / 2 ^ 49, dist_s = 50\<rparr>, \<lparr>ele = 21 / 2, dist_s = 75\<rparr>,
               \<lparr>ele = 14, dist_s = 100\<rparr>]
     = Inr \<lparr>gain = 5723324526450006 / 2 ^ 49, loss = 0, anchor = 21 / 2\<rparr>"
    by (simp add: accumulate_def acc_step_def THRESHOLD_def fl_eval)
  have ne: "5723324526450006 / 2 ^ 49 - 0 \<noteq> (21 / 2 - 6004799503160661 / 2 ^ 54 :: real)"
    by simp
  have r1: "fl (5723324526450006 / 2 ^ 49 - 0) = 5723324526450006 / 2 ^ 49"
    by (simp add: fl_eval)
  have r2: "fl (21 / 2 - 6004799503160661 / 2 ^ 54) = 5723324526450005 / 2 ^ 49"
    by (simp add: fl_eval)
  have "fl (5723324526450006 / 2 ^ 49 - 0) \<noteq> fl (21 / 2 - 6004799503160661 / 2 ^ 54)"
    unfolding r1 r2 by simp
  with run ne show ?thesis by blast
qed

subsection \<open>The slope annotation\<close>

lemma slope_loop_stop:
  "\<not> int i < int (length cd) - 1 \<Longrightarrow> slope_loop cd i = cd"
  by (simp add: slope_loop.simps [of cd i])

lemma slope_loop_pos:
  assumes "int i < int (length cd) - 1" and "x (cd ! (i + 1)) - x (cd ! i) > 0"
  shows "slope_loop cd i =
     slope_loop (cd[i := (cd ! i)\<lparr>slope := Str (toFixed 1 (arctan
        ((y (cd ! (i + 1)) - y (cd ! i)) / (x (cd ! (i + 1)) - x (cd ! i))) * 180 / pi))\<rparr>])
       (i + 1)"
proof -
  have g: "\<And>q :: real. q * 100 / 100 = q"
    by simp
  show ?thesis
    by (subst slope_loop.simps) (simp only: assms if_True Let_def g)
qed

lemma slope_loop_npos:
  assumes "int i < int (length cd) - 1" and "\<not> x (cd ! (i + 1)) - x (cd ! i) > 0"
  shows "slope_loop cd i = slope_loop cd (i + 1)"
  by (subst slope_loop.simps) (simp only: assms if_True if_False Let_def)

text \<open>One turn of the loop leaves the list as it is or replaces the slope at \<open>i\<close>.\<close>

lemma slope_loop_turn:
  assumes "int i < int (length cd) - 1"
  obtains v where "slope_loop cd i = slope_loop (cd[i := (cd ! i)\<lparr>slope := v\<rparr>]) (i + 1)"
    and "v = (if x (cd ! (i + 1)) - x (cd ! i) > 0
              then Str (toFixed 1 (arctan
                ((y (cd ! (i + 1)) - y (cd ! i)) / (x (cd ! (i + 1)) - x (cd ! i))) * 180 / pi))
              else slope (cd ! i))"
proof (cases "x (cd ! (i + 1)) - x (cd ! i) > 0")
  case True
  show ?thesis
  proof (rule that)
    show "slope_loop cd i =
        slope_loop (cd[i := (cd ! i)\<lparr>slope := Str (toFixed 1 (arctan
          ((y (cd ! (i + 1)) - y (cd ! i)) / (x (cd ! (i + 1)) - x (cd ! i))) * 180 / pi))\<rparr>])
        (i + 1)"
      by (rule slope_loop_pos [OF assms True])
    show "Str (toFixed 1 (arctan
          ((y (cd ! (i + 1)) - y (cd ! i)) / (x (cd ! (i + 1)) - x (cd ! i))) * 180 / pi)) =
        (if x (cd ! (i + 1)) - x (cd ! i) > 0
         then Str (toFixed 1 (arctan
           ((y (cd ! (i + 1)) - y (cd ! i)) / (x (cd ! (i + 1)) - x (cd ! i))) * 180 / pi))
         else slope (cd ! i))"
      using True by (simp only: if_True)
  qed
next
  case False
  have same: "cd[i := (cd ! i)\<lparr>slope := slope (cd ! i)\<rparr>] = cd"
    by (simp add: list_update_same_conv)
  show ?thesis
  proof (rule that)
    show "slope_loop cd i = slope_loop (cd[i := (cd ! i)\<lparr>slope := slope (cd ! i)\<rparr>]) (i + 1)"
      unfolding same by (rule slope_loop_npos [OF assms False])
    show "slope (cd ! i) =
        (if x (cd ! (i + 1)) - x (cd ! i) > 0
         then Str (toFixed 1 (arctan
           ((y (cd ! (i + 1)) - y (cd ! i)) / (x (cd ! (i + 1)) - x (cd ! i))) * 180 / pi))
         else slope (cd ! i))"
      using False by (simp only: if_False)
  qed
qed

lemma slope_loop_length: "length (slope_loop cd i) = length cd"
proof (induction "length cd - i" arbitrary: cd i rule: less_induct)
  case less
  show ?case
  proof (cases "int i < int (length cd) - 1")
    case False
    then show ?thesis by (simp add: slope_loop_stop)
  next
    case True
    then obtain v where
      step: "slope_loop cd i = slope_loop (cd[i := (cd ! i)\<lparr>slope := v\<rparr>]) (i + 1)"
      by (rule slope_loop_turn)
    define cd' where "cd' = cd[i := (cd ! i)\<lparr>slope := v\<rparr>]"
    have len: "length cd' = length cd" by (simp add: cd'_def)
    have "length cd' - (i + 1) < length cd - i"
      using True len by linarith
    then have "length (slope_loop cd' (i + 1)) = length cd'"
      by (rule less)
    then show ?thesis
      unfolding step cd'_def [symmetric] len .
  qed
qed

lemma slope_loop_other:
  "j < i \<or> int (length cd) - 1 \<le> int j \<Longrightarrow> slope_loop cd i ! j = cd ! j"
proof (induction "length cd - i" arbitrary: cd i rule: less_induct)
  case less
  show ?case
  proof (cases "int i < int (length cd) - 1")
    case False
    then show ?thesis by (simp add: slope_loop_stop)
  next
    case True
    then obtain v where
      step: "slope_loop cd i = slope_loop (cd[i := (cd ! i)\<lparr>slope := v\<rparr>]) (i + 1)"
      by (rule slope_loop_turn)
    define cd' where "cd' = cd[i := (cd ! i)\<lparr>slope := v\<rparr>]"
    have len: "length cd' = length cd" by (simp add: cd'_def)
    have ne: "j \<noteq> i" using True less.prems by auto
    have same: "cd' ! j = cd ! j" using ne by (simp add: cd'_def)
    have m: "length cd' - (i + 1) < length cd - i"
      using True len by linarith
    have p: "j < i + 1 \<or> int (length cd') - 1 \<le> int j"
      using less.prems len by auto
    have "slope_loop cd' (i + 1) ! j = cd' ! j"
      using m p by (rule less.hyps)
    then show ?thesis
      unfolding step cd'_def [symmetric] same .
  qed
qed

lemma slope_loop_xy:
  "j < length cd \<Longrightarrow>
     x (slope_loop cd i ! j) = x (cd ! j) \<and> y (slope_loop cd i ! j) = y (cd ! j)"
proof (induction "length cd - i" arbitrary: cd i rule: less_induct)
  case less
  show ?case
  proof (cases "int i < int (length cd) - 1")
    case False
    then show ?thesis by (simp add: slope_loop_stop)
  next
    case True
    then obtain v where
      step: "slope_loop cd i = slope_loop (cd[i := (cd ! i)\<lparr>slope := v\<rparr>]) (i + 1)"
      by (rule slope_loop_turn)
    define cd' where "cd' = cd[i := (cd ! i)\<lparr>slope := v\<rparr>]"
    have len: "length cd' = length cd" by (simp add: cd'_def)
    have same: "x (cd' ! j) = x (cd ! j)" "y (cd' ! j) = y (cd ! j)"
      using less.prems by (cases "j = i"; simp add: cd'_def)+
    have m: "length cd' - (i + 1) < length cd - i"
      using True len by linarith
    have p: "j < length cd'"
      using less.prems len by simp
    have "x (slope_loop cd' (i + 1) ! j) = x (cd' ! j)
        \<and> y (slope_loop cd' (i + 1) ! j) = y (cd' ! j)"
      using m p by (rule less.hyps)
    then show ?thesis
      unfolding step cd'_def [symmetric] same .
  qed
qed

lemma slope_loop_at:
  "i \<le> j \<Longrightarrow> int j < int (length cd) - 1 \<Longrightarrow>
     slope (slope_loop cd i ! j) =
       (if x (cd ! (j + 1)) - x (cd ! j) > 0
        then Str (toFixed 1 (arctan
               ((y (cd ! (j + 1)) - y (cd ! j)) / (x (cd ! (j + 1)) - x (cd ! j))) * 180 / pi))
        else slope (cd ! j))"
proof (induction "length cd - i" arbitrary: cd i rule: less_induct)
  case less
  from less.prems have True: "int i < int (length cd) - 1"
    by linarith
  from less.prems have jl: "j < length cd" "j + 1 < length cd"
    by linarith+
  from True obtain v where
    step: "slope_loop cd i = slope_loop (cd[i := (cd ! i)\<lparr>slope := v\<rparr>]) (i + 1)"
    and v: "v = (if x (cd ! (i + 1)) - x (cd ! i) > 0
              then Str (toFixed 1 (arctan
                ((y (cd ! (i + 1)) - y (cd ! i)) / (x (cd ! (i + 1)) - x (cd ! i))) * 180 / pi))
              else slope (cd ! i))"
    by (rule slope_loop_turn)
  define cd' where "cd' = cd[i := (cd ! i)\<lparr>slope := v\<rparr>]"
  have len: "length cd' = length cd" by (simp add: cd'_def)
  show ?case
  proof (cases "j = i")
    case True
    have "slope_loop cd' (i + 1) ! i = cd' ! i"
      by (rule slope_loop_other) simp
    moreover have "slope (cd' ! i) = v"
      using jl True by (simp add: cd'_def)
    ultimately have "slope (slope_loop cd i ! i) = v"
      unfolding step cd'_def [symmetric] by simp
    with v True show ?thesis by simp
  next
    case False
    with less.prems have le: "i + 1 \<le> j" by simp
    have m: "length cd' - (i + 1) < length cd - i"
      using \<open>int i < int (length cd) - 1\<close> len by linarith
    have p: "int j < int (length cd') - 1"
      using less.prems len by simp
    have xy: "x (cd' ! (j + 1)) = x (cd ! (j + 1))" "x (cd' ! j) = x (cd ! j)"
      "y (cd' ! (j + 1)) = y (cd ! (j + 1))" "y (cd' ! j) = y (cd ! j)"
      using jl by (cases "j = i"; cases "j + 1 = i"; simp add: cd'_def)+
    have sl: "slope (cd' ! j) = slope (cd ! j)"
      using False by (simp add: cd'_def)
    have "slope (slope_loop cd' (i + 1) ! j) =
       (if x (cd' ! (j + 1)) - x (cd' ! j) > 0
        then Str (toFixed 1 (arctan
               ((y (cd' ! (j + 1)) - y (cd' ! j)) / (x (cd' ! (j + 1)) - x (cd' ! j))) * 180 / pi))
        else slope (cd' ! j))"
      using m le p by (rule less.hyps)
    then show ?thesis
      unfolding step cd'_def [symmetric] xy sl .
  qed
qed

lemma annotate_length: "length (annotate ps) = length ps"
  by (simp add: annotate_def slope_loop_length initChart_def)

lemma annotate_last:
  assumes "annotate ps \<noteq> []"
  shows "slope (last (annotate ps)) = Num 0"
proof -
  from assms have ne: "ps \<noteq> []"
    using annotate_length [of ps] by auto
  let ?j = "length ps - 1"
  have j: "?j < length ps" using ne by simp
  have "last (annotate ps) = annotate ps ! ?j"
    using assms by (simp add: last_conv_nth annotate_length)
  also have "\<dots> = initChart ps ! ?j"
    unfolding annotate_def
    by (rule slope_loop_other) (simp add: initChart_def)
  also have "\<dots> = \<lparr>x = x (ps ! ?j), y = y (ps ! ?j), slope = Num 0\<rparr>"
    using j by (simp add: initChart_def)
  finally show ?thesis by simp
qed


lemma toFixed_1_0: "toFixed (Suc 0) 0 = ''0.0''"
  by (simp add: toFixed_def digits.simps digit_char_def)

text \<open>
  Claim C2, as the code has it. For consecutive simplified points \<open>p\<^sub>i\<close>, \<open>p\<^sub>i\<^sub>+\<^sub>1\<close> with
  \<open>dx = x\<^sub>i\<^sub>+\<^sub>1 - x\<^sub>i > 0\<close> the slope attached to \<open>p\<^sub>i\<close> is the string that \<open>toFixed(1)\<close>
  returns for \<open>atan(dy / dx)\<close> in degrees: the angle rounded to one decimal and written
  as text, not a number. With \<open>dx = 0\<close> the slope stays the number \<open>0\<close>. The points keep
  their \<open>x\<close> and \<open>y\<close>.
\<close>

theorem annotate_slope:
  assumes "i + 1 < length ps"
  shows "x (annotate ps ! i) = x (ps ! i) \<and> y (annotate ps ! i) = y (ps ! i)
       \<and> (x (ps ! (i + 1)) - x (ps ! i) > 0 \<longrightarrow>
            slope (annotate ps ! i) = Str (toFixed 1 (arctan
              ((y (ps ! (i + 1)) - y (ps ! i)) / (x (ps ! (i + 1)) - x (ps ! i))) * 180 / pi)))
       \<and> (x (ps ! (i + 1)) - x (ps ! i) = 0 \<longrightarrow> slope (annotate ps ! i) = Num 0)"
proof -
  have il: "i < length (initChart ps)" "i + 1 < length (initChart ps)"
    using assms by (simp_all add: initChart_def)
  have n0: "x (initChart ps ! i) = x (ps ! i)" "y (initChart ps ! i) = y (ps ! i)"
    "slope (initChart ps ! i) = Num 0"
    using assms by (simp_all add: initChart_def)
  have n1: "x (initChart ps ! (i + 1)) = x (ps ! (i + 1))"
    "y (initChart ps ! (i + 1)) = y (ps ! (i + 1))"
    using assms by (simp_all add: initChart_def)
  have xy: "x (annotate ps ! i) = x (ps ! i) \<and> y (annotate ps ! i) = y (ps ! i)"
    using slope_loop_xy [OF il(1), of 0] by (simp only: annotate_def n0)
  have "int i < int (length (initChart ps)) - 1"
    using il(2) by linarith
  from slope_loop_at [OF _ this, of 0]
  have "slope (annotate ps ! i) =
       (if x (ps ! (i + 1)) - x (ps ! i) > 0
        then Str (toFixed 1 (arctan
               ((y (ps ! (i + 1)) - y (ps ! i)) / (x (ps ! (i + 1)) - x (ps ! i))) * 180 / pi))
        else Num 0)"
    by (simp only: annotate_def n0 n1 le0)
  with xy show ?thesis by simp
qed

lemma toFixed_1_45: "toFixed 1 45 = ''45.0''"
  by (simp add: toFixed_def digits.simps digit_char_def)

theorem annotate_slope_witness:
  "(0::nat) + 1 < length [\<lparr>x = 0, y = 0\<rparr>, \<lparr>x = 25, y = 25\<rparr>, \<lparr>x = 25, y = 30\<rparr>, \<lparr>x = 60, y = 30\<rparr>]
   \<and> x ([\<lparr>x = 0, y = 0\<rparr>, \<lparr>x = 25, y = 25\<rparr>, \<lparr>x = 25, y = 30\<rparr>, \<lparr>x = 60, y = 30\<rparr>] ! (0 + 1))
       - x ([\<lparr>x = 0, y = 0\<rparr>, \<lparr>x = 25, y = 25\<rparr>, \<lparr>x = 25, y = 30\<rparr>, \<lparr>x = 60, y = 30\<rparr>] ! 0) > 0
   \<and> slope (annotate [\<lparr>x = 0, y = 0\<rparr>, \<lparr>x = 25, y = 25\<rparr>, \<lparr>x = 25, y = 30\<rparr>, \<lparr>x = 60, y = 30\<rparr>] ! 0)
       = Str ''45.0''
   \<and> (1::nat) + 1 < length [\<lparr>x = 0, y = 0\<rparr>, \<lparr>x = 25, y = 25\<rparr>, \<lparr>x = 25, y = 30\<rparr>, \<lparr>x = 60, y = 30\<rparr>]
   \<and> x ([\<lparr>x = 0, y = 0\<rparr>, \<lparr>x = 25, y = 25\<rparr>, \<lparr>x = 25, y = 30\<rparr>, \<lparr>x = 60, y = 30\<rparr>] ! (1 + 1))
       - x ([\<lparr>x = 0, y = 0\<rparr>, \<lparr>x = 25, y = 25\<rparr>, \<lparr>x = 25, y = 30\<rparr>, \<lparr>x = 60, y = 30\<rparr>] ! 1) = 0
   \<and> slope (annotate [\<lparr>x = 0, y = 0\<rparr>, \<lparr>x = 25, y = 25\<rparr>, \<lparr>x = 25, y = 30\<rparr>, \<lparr>x = 60, y = 30\<rparr>] ! 1)
       = Num 0"
proof -
  have "arctan 1 * 180 / pi = 45"
    by (simp add: arctan_one)
  with toFixed_1_45 have a: "toFixed (Suc 0) (arctan 1 * 180 / pi) = ''45.0''"
    by simp
  have s0: "slope (annotate [\<lparr>x = 0, y = 0\<rparr>, \<lparr>x = 25, y = 25\<rparr>, \<lparr>x = 25, y = 30\<rparr>, \<lparr>x = 60, y = 30\<rparr>] ! 0)
       = Str ''45.0''"
    using annotate_slope [of 0 "[\<lparr>x = 0, y = 0\<rparr>, \<lparr>x = 25, y = 25\<rparr>, \<lparr>x = 25, y = 30\<rparr>, \<lparr>x = 60, y = 30\<rparr>]"] a
    by simp
  have s1: "slope (annotate [\<lparr>x = 0, y = 0\<rparr>, \<lparr>x = 25, y = 25\<rparr>, \<lparr>x = 25, y = 30\<rparr>, \<lparr>x = 60, y = 30\<rparr>] ! 1)
       = Num 0"
    using annotate_slope [of 1 "[\<lparr>x = 0, y = 0\<rparr>, \<lparr>x = 25, y = 25\<rparr>, \<lparr>x = 25, y = 30\<rparr>, \<lparr>x = 60, y = 30\<rparr>]"]
    by simp
  from s0 s1 show ?thesis by simp
qed

theorem annotate_slope_counterexample:
  "slope (annotate [\<lparr>x = 0, y = 0\<rparr>, \<lparr>x = 25, y = 25\<rparr>] ! 0) = Str ''45.0''
   \<and> slope (annotate [\<lparr>x = 0, y = 0\<rparr>, \<lparr>x = 25, y = 25\<rparr>] ! 0) \<noteq> Num 45"
proof -
  have "arctan 1 * 180 / pi = 45"
    by (simp add: arctan_one)
  with toFixed_1_45 have a: "toFixed (Suc 0) (arctan 1 * 180 / pi) = ''45.0''"
    by simp
  then show ?thesis
    by (simp add: annotate_def initChart_def slope_loop.simps)
qed

subsection \<open>A run of the whole pipeline\<close>

lemma scenario_A_resample:
  "resample [\<lparr>ele = 100\<rparr>, \<lparr>ele = 110\<rparr>, \<lparr>ele = 100\<rparr>] [0, 50, 100] 100 =
     Inr [\<lparr>ele = 100, dist_s = 0\<rparr>, \<lparr>ele = 105, dist_s = 25\<rparr>, \<lparr>ele = 110, dist_s = 50\<rparr>,
          \<lparr>ele = 105, dist_s = 75\<rparr>, \<lparr>ele = 100, dist_s = 100\<rparr>]"
  by (simp add: resample_def resample_loop.simps advance.simps sample_ele_def ele_at_def
      cumDist_at_def num_div_def SAMPLE_DISTANCE_def)

lemma scenario_A_smooth:
  "smooth [\<lparr>ele = 100, dist_s = 0\<rparr>, \<lparr>ele = 105, dist_s = 25\<rparr>, \<lparr>ele = 110, dist_s = 50\<rparr>,
          \<lparr>ele = 105, dist_s = 75\<rparr>, \<lparr>ele = 100, dist_s = 100\<rparr>] =
     [\<lparr>ele = 105, dist_s = 0\<rparr>, \<lparr>ele = 105, dist_s = 25\<rparr>, \<lparr>ele = 104, dist_s = 50\<rparr>,
      \<lparr>ele = 105, dist_s = 75\<rparr>, \<lparr>ele = 105, dist_s = 100\<rparr>]"
  by (simp add: smooth_def smooth_at_def half_eq window_loop.simps)

lemma scenario_A_accumulate:
  "accumulate [\<lparr>ele = 105, dist_s = 0\<rparr>, \<lparr>ele = 105, dist_s = 25\<rparr>, \<lparr>ele = 104, dist_s = 50\<rparr>,
      \<lparr>ele = 105, dist_s = 75\<rparr>, \<lparr>ele = 105, dist_s = 100\<rparr>] =
     Inr \<lparr>gain = 0, loss = 0, anchor = 105\<rparr>"
  by (simp add: accumulate_def acc_step_def THRESHOLD_def fl_eval)

lemma scenario_A_farthest:
  "farthest [\<lparr>x = 0, y = 105\<rparr>, \<lparr>x = 25, y = 105\<rparr>, \<lparr>x = 50, y = 104\<rparr>,
      \<lparr>x = 75, y = 105\<rparr>, \<lparr>x = 100, y = 105\<rparr>] 9 0 4 = (None, 9)"
  by (simp add: farthest_def farther_def sqSegDist_def upt_rec [of _ 4] upt_rec [of _ "numeral _"])

lemma scenario_A_simplify:
  "simplify_spec [\<lparr>x = 0, y = 105\<rparr>, \<lparr>x = 25, y = 105\<rparr>, \<lparr>x = 50, y = 104\<rparr>,
      \<lparr>x = 75, y = 105\<rparr>, \<lparr>x = 100, y = 105\<rparr>] 3 = [\<lparr>x = 0, y = 105\<rparr>, \<lparr>x = 100, y = 105\<rparr>]"
proof -
  have "dp_step [\<lparr>x = 0, y = 105\<rparr>, \<lparr>x = 25, y = 105\<rparr>, \<lparr>x = 50, y = 104\<rparr>,
      \<lparr>x = 75, y = 105\<rparr>, \<lparr>x = 100, y = 105\<rparr>] 9 0 (Suc (Suc (Suc (Suc 0)))) = []"
    using dp_step_none [OF scenario_A_farthest] by (simp add: eval_nat_numeral)
  then show ?thesis
    by (simp add: simplify_spec_def)
qed

lemma scenario_A_annotate:
  "annotate [\<lparr>x = 0, y = 105\<rparr>, \<lparr>x = 100, y = 105\<rparr>] =
     [\<lparr>x = 0, y = 105, slope = Str ''0.0''\<rparr>, \<lparr>x = 100, y = 105, slope = Num 0\<rparr>]"
  using toFixed_1_0 by (simp add: annotate_def initChart_def slope_loop.simps)

lemma scenario_A_stats:
  "mkStats 100 \<lparr>gain = 0, loss = 0, anchor = 105\<rparr>
     [\<lparr>ele = 105, dist_s = 0\<rparr>, \<lparr>ele = 105, dist_s = 25\<rparr>, \<lparr>ele = 104, dist_s = 50\<rparr>,
      \<lparr>ele = 105, dist_s = 75\<rparr>, \<lparr>ele = 105, dist_s = 100\<rparr>] =
   \<lparr>distance_text = ''0.10'', totalDistance = 100, elevationGain = ''0'', elevationLoss = ''0'',
    maxElevation = ''105'', minElevation = ''104''\<rparr>"
  by (simp add: mkStats_def toFixed_def toString_def Math_round_def digits.simps digit_char_def)

lemma scenario_A_run:
  "processGPX simplify_hq scenario_A =
     Inr \<lparr>stats = \<lparr>distance_text = ''0.10'', totalDistance = 100, elevationGain = ''0'',
                  elevationLoss = ''0'', maxElevation = ''105'', minElevation = ''104''\<rparr>,
          chartData = [\<lparr>x = 0, y = 105, slope = Str ''0.0''\<rparr>, \<lparr>x = 100, y = 105, slope = Num 0\<rparr>]\<rparr>"
  by (simp add: processGPX_def scenario_A_resample scenario_A_smooth scenario_A_accumulate
      smoothedPoints_def scenario_A_simplify scenario_A_annotate scenario_A_stats)

text \<open>
  Claim C8. Whenever the pipeline returns a non-empty \<open>chartData\<close>, whatever the
  imported simplifier does, the slope of its last point is the number \<open>0\<close>.
\<close>

theorem chartData_last_slope:
  assumes "processGPX simplify g = Inr out" and "chartData out \<noteq> []"
  shows "slope (last (chartData out)) = Num 0"
proof -
  from assms(1) obtain ps where "chartData out = annotate ps"
    by (auto simp: processGPX_def split: option.splits list.splits sum.splits)
  with assms(2) show ?thesis
    by (simp add: annotate_last)
qed


theorem chartData_last_slope_witness:
  "processGPX simplify_hq scenario_A =
     Inr \<lparr>stats = \<lparr>distance_text = ''0.10'', totalDistance = 100, elevationGain = ''0'',
                  elevationLoss = ''0'', maxElevation = ''105'', minElevation = ''104''\<rparr>,
          chartData = [\<lparr>x = 0, y = 105, slope = Str ''0.0''\<rparr>, \<lparr>x = 100, y = 105, slope = Num 0\<rparr>]\<rparr>
   \<and> [\<lparr>x = 0, y = 105, slope = Str ''0.0''\<rparr>, \<lparr>x = 100, y = 105, slope = Num 0\<rparr>] \<noteq> []
   \<and> slope (last [\<lparr>x = 0, y = 105, slope = Str ''0.0''\<rparr>, \<lparr>x = 100, y = 105, slope = Num 0\<rparr>]) = Num 0"
proof -
  have ne: "chartData \<lparr>stats = \<lparr>distance_text = ''0.10'', totalDistance = 100, elevationGain = ''0'',
                  elevationLoss = ''0'', maxElevation = ''105'', minElevation = ''104''\<rparr>,
          chartData = [\<lparr>x = 0, y = 105, slope = Str ''0.0''\<rparr>, \<lparr>x = 100, y = 105, slope = Num 0\<rparr>]\<rparr> \<noteq> []"
    by simp
  from chartData_last_slope [OF scenario_A_run ne] scenario_A_run show ?thesis
    by simp
qed


subsection \<open>Stats\<close>

lemma Math_max_Max:
  assumes "vs \<noteq> []"
  shows "Math_max vs = Some (Max (set vs))"
proof (cases vs)
  case Nil
  with assms show ?thesis by simp
next
  case (Cons v rest)
  have "Max (set (v # rest)) = fold max rest v"
    by (rule Max.set_eq_fold)
  with Cons show ?thesis by (simp only: Math_max.simps)
qed

lemma Math_min_Min:
  assumes "vs \<noteq> []"
  shows "Math_min vs = Some (Min (set vs))"
proof (cases vs)
  case Nil
  with assms show ?thesis by simp
next
  case (Cons v rest)
  have "Min (set (v # rest)) = fold min rest v"
    by (rule Min.set_eq_fold)
  with Cons show ?thesis by (simp only: Math_min.simps)
qed

lemma mkStats_extremes:
  assumes "smoothed \<noteq> []"
  shows "maxElevation (mkStats totalDist acc smoothed) = toFixed 0 (Max (ele ` set smoothed))"
    and "minElevation (mkStats totalDist acc smoothed) = toFixed 0 (Min (ele ` set smoothed))"
  using assms by (simp_all add: mkStats_def Math_max_Max Math_min_Min)

text \<open>
  Claim C3. When the pipeline returns, the smoothed sequence of the first track is not
  empty, and \<open>maxElevation\<close> and \<open>minElevation\<close> are the maximum and the minimum of the
  elevations of that smoothed sequence, rounded to an integer and written as text by
  \<open>toFixed(0)\<close>.
\<close>

theorem stats_elevation_extremes:
  assumes "processGPX simplify g = Inr out"
  shows "\<exists>trk rest samples.
           tracks g = Some (trk # rest)
         \<and> resample (points trk) (cumul (distance trk)) (total_d (distance trk)) = Inr samples
         \<and> smooth samples \<noteq> []
         \<and> maxElevation (stats out) = toFixed 0 (Max (ele ` set (smooth samples)))
         \<and> minElevation (stats out) = toFixed 0 (Min (ele ` set (smooth samples)))"
proof -
  from assms obtain trk rest where t: "tracks g = Some (trk # rest)"
    by (auto simp: processGPX_def split: option.splits list.splits)
  from assms t obtain samples where
    r: "resample (points trk) (cumul (distance trk)) (total_d (distance trk)) = Inr samples"
    by (auto simp: processGPX_def split: sum.splits)
  from assms t r obtain acc where a: "accumulate (smooth samples) = Inr acc"
    by (auto simp: processGPX_def split: sum.splits)
  then have ne: "smooth samples \<noteq> []"
    by (auto simp: accumulate_def)
  from assms t r a have "stats out = mkStats (total_d (distance trk)) acc (smooth samples)"
    by (auto simp: processGPX_def)
  with mkStats_extremes [OF ne] t r ne show ?thesis
    by auto
qed

theorem stats_elevation_extremes_witness:
  "processGPX simplify_hq scenario_A =
     Inr \<lparr>stats = \<lparr>distance_text = ''0.10'', totalDistance = 100, elevationGain = ''0'',
                  elevationLoss = ''0'', maxElevation = ''105'', minElevation = ''104''\<rparr>,
          chartData = [\<lparr>x = 0, y = 105, slope = Str ''0.0''\<rparr>, \<lparr>x = 100, y = 105, slope = Num 0\<rparr>]\<rparr>
   \<and> (\<exists>samples.
         resample [\<lparr>ele = 100\<rparr>, \<lparr>ele = 110\<rparr>, \<lparr>ele = 100\<rparr>] [0, 50, 100] 100 = Inr samples
       \<and> smooth samples \<noteq> []
       \<and> ''105'' = toFixed 0 (Max (ele ` set (smooth samples)))
       \<and> ''104'' = toFixed 0 (Min (ele ` set (smooth samples))))"
  using stats_elevation_extremes [OF scenario_A_run] scenario_A_run
  by simp

subsection \<open>The entry check\<close>

lemma processGPX_no_tracks:
  assumes "tracks g = None \<or> tracks g = Some []"
  shows "processGPX simplify g = Inl (Error ''No tracks found in GPX file'')"
  using assms by (auto simp: processGPX_def)

lemma resample_no_points:
  "resample [] cumDist totalDist = (if 0 \<le> totalDist then Inl TypeError else Inr [])"
  by (simp add: resample_def resample_loop.simps [of _ _ _ 0] sample_ele_def ele_at_def)

lemma processGPX_no_points:
  assumes "tracks g = Some (trk # rest)" and "points trk = []"
  shows "processGPX simplify g = Inl TypeError"
  using assms
  by (simp add: processGPX_def resample_no_points smooth_def accumulate_def)

text \<open>
  Claim C1. With no track the entry check raises its error before any stage runs. With
  a first track that has no point the check lets the input through, and the run ends in
  the \<open>TypeError\<close> of a read of \<^verbatim>\<open>points[-1].ele\<close> inside the resampling stage: not the
  error of the entry check.
\<close>

theorem processGPX_empty_track:
  "processGPX simplify_hq
     \<lparr>tracks = Some [\<lparr>points = [], distance = \<lparr>total_d = 0, cumul = []\<rparr>\<rparr>]\<rparr> = Inl TypeError
   \<and> resample [] [] 0 = Inl TypeError
   \<and> processGPX simplify_hq \<lparr>tracks = Some []\<rparr> = Inl (Error ''No tracks found in GPX file'')"
  by (simp add: processGPX_no_points processGPX_no_tracks resample_no_points)

end
